theory Spec2Isabelle
  imports Main "HOL-Library.AList"
begin

section \<open>Values, errors and the calls that leave the library\<close>

text \<open>
  The library is glue between the browser's custom-element lifecycle, the lit-html
  renderer and reactive-data-store. Everything the two classes call outside themselves
  (store API, renderer, DOM, timers, and the hooks a subclass overrides) is a \<open>call\<close>;
  the answers come from an environment that may depend on the whole history of calls.
  Every call made is appended to the element's \<open>trace\<close> with its outcome. A call
  returns or throws; it is taken not to call back into the element while it runs.

  Store data is modelled as plain values: \<open>undefined\<close>, \<open>null\<close>, an opaque primitive, or
  a plain object given by its own properties in creation order.
\<close>

datatype jsval = Undefined | Null | Prim string | Obj "(string \<times> jsval) list"

text \<open>
  \<open>TypeError\<close> is what the JavaScript runtime raises inside the library's own code
  (a property of \<open>undefined\<close>, a call of something that is no function, creating a
  property on a primitive in strict code). \<open>Thrown x\<close> is the error \<open>x\<close> raised by
  an external call.
\<close>

datatype error = TypeError | Thrown string

datatype node = Host | Ext nat

type_synonym handle = nat
type_synonym storeobj = nat
type_synonym tpl = nat

text \<open>The three closures the library hands to \<open>setTimeout\<close>.\<close>

datatype callback = RenderBound | PostRender | DebugLog

text \<open>The closure \<open>updateData(name)\<close>, identified by the name it captured.\<close>

datatype update_cb = UpdateData "string option"

record descriptor =
  d_name :: "string option"
  d_store :: "string option"
  d_storePath :: jsval
  d_just :: jsval
  d_not :: jsval

datatype parsed = One descriptor | Many "descriptor list"

datatype hook = BeforeUpdate | BeforeRender | OnFirstRender | OnRender

datatype call =
    CParse "string option"
  | CStore "string option"
  | CSubscribe storeobj update_cb jsval jsval jsval "string option"
  | CUnsubscribe handle
  | CData "string option"
  | CGetDataFromPath jsval jsval jsval jsval
  | CHook hook jsval
  | CPreRenderCheck jsval
  | CTemplate jsval
  | CHtml
  | CRenderTemplate tpl "node option"
  | CQuerySelector node string
  | CCreateElement string
  | CSetAttribute node string string
  | CSetInnerHTML node string
  | CAppendChild node node
  | CSetTimeout callback "nat option"
  | CCustomEvent string
  | CDispatchEvent string
  | CConsoleLog string
  | CAttachShadow string
  | CShadowRoot
  | CAddEventListener node string nat
  | CRemoveEventListener node string nat

datatype retval =
    RUnit
  | RHandle handle
  | RStore storeobj
  | RVal jsval
  | RTpl "tpl option"
  | RBool bool
  | RNode "node option"
  | RParsed parsed

datatype outcome = Threw string | Ret retval

datatype event = Ev call outcome

text \<open>
  The environment: for a history and a call, whether the call throws, and otherwise the
  value it returns, read at the type the library's contract with that API gives it
  (a subscribe call returns a handle object with an \<open>unsubscribe\<close> method, and so on).
\<close>

record env =
  throws :: "event list \<Rightarrow> call \<Rightarrow> string option"
  handle_ret :: "event list \<Rightarrow> call \<Rightarrow> handle"
  store_ret :: "event list \<Rightarrow> call \<Rightarrow> storeobj"
  val_ret :: "event list \<Rightarrow> call \<Rightarrow> jsval"
  template_ret :: "event list \<Rightarrow> call \<Rightarrow> tpl option"
  html_ret :: "event list \<Rightarrow> call \<Rightarrow> tpl"
  bool_ret :: "event list \<Rightarrow> call \<Rightarrow> bool"
  query_ret :: "event list \<Rightarrow> call \<Rightarrow> node option"
  node_ret :: "event list \<Rightarrow> call \<Rightarrow> node"
  parsed_ret :: "event list \<Rightarrow> call \<Rightarrow> parsed"

text \<open>A registered listener remover: the closure \<open>off\<close> built by \<open>on\<close>.\<close>

datatype off = Off node string nat

text \<open>
  The element. \<open>DEBUG\<close> and \<open>STYLESHEETS\<close> are the two module-level variables;
  \<open>STYLESHEETS\<close> is \<open>None\<close> while undefined and otherwise gives, for a stylesheet
  name, the string the \<open>href\<close> attribute receives. \<open>root\<close> is \<open>None\<close> when it is
  \<open>null\<close> (a closed shadow root). \<open>dataset_store\<close> is the \<open>data-store\<close> attribute.
\<close>

record elem =
  tagName :: string
  dataset_store :: "string option"
  root :: "node option"
  events :: "off list"
  rendered :: bool
  stylesheets :: "string list option"
  styles :: "node option"
  DATA :: jsval
  subscriptions :: "(string \<times> handle) list"
  DEBUG :: bool
  STYLESHEETS :: "(string \<Rightarrow> string) option"
  trace :: "event list"

section \<open>Sequencing with errors\<close>

type_synonym 'a act = "elem \<Rightarrow> (error + 'a) \<times> elem"

definition returnM :: "'a \<Rightarrow> 'a act" where
  "returnM v s = (Inr v, s)"

definition throwM :: "error \<Rightarrow> 'a act" where
  "throwM e s = (Inl e, s)"

definition bindM :: "'a act \<Rightarrow> ('a \<Rightarrow> 'b act) \<Rightarrow> 'b act" where
  "bindM m f s = (case m s of (Inl e, s') \<Rightarrow> (Inl e, s') | (Inr v, s') \<Rightarrow> f v s')"

definition thenM :: "'a act \<Rightarrow> 'b act \<Rightarrow> 'b act" where
  "thenM m n = bindM m (\<lambda>_. n)"

definition whenM :: "bool \<Rightarrow> unit act \<Rightarrow> unit act" where
  "whenM b m = (if b then m else returnM ())"

definition modify :: "(elem \<Rightarrow> elem) \<Rightarrow> unit act" where
  "modify f s = (Inr (), f s)"

definition gets :: "(elem \<Rightarrow> 'a) \<Rightarrow> 'a act" where
  "gets f s = (Inr (f s), s)"

fun forEach :: "('a \<Rightarrow> unit act) \<Rightarrow> 'a list \<Rightarrow> unit act" where
  "forEach f [] = returnM ()"
| "forEach f (x # xs) = thenM (f x) (forEach f xs)"

definition extern :: "env \<Rightarrow> call \<Rightarrow> (env \<Rightarrow> event list \<Rightarrow> call \<Rightarrow> 'a) \<Rightarrow> ('a \<Rightarrow> retval) \<Rightarrow> 'a act" where
  "extern E c get wrap s =
     (case throws E (trace s) c of
        Some x \<Rightarrow> (Inl (Thrown x), s\<lparr>trace := trace s @ [Ev c (Threw x)]\<rparr>)
      | None \<Rightarrow>
          (let v = get E (trace s) c
           in (Inr v, s\<lparr>trace := trace s @ [Ev c (Ret (wrap v))]\<rparr>)))"

definition call_proc :: "env \<Rightarrow> call \<Rightarrow> unit act" where
  "call_proc E c = extern E c (\<lambda>_ _ _. ()) (\<lambda>_. RUnit)"

definition call_handle :: "env \<Rightarrow> call \<Rightarrow> handle act" where
  "call_handle E c = extern E c handle_ret RHandle"

definition call_store :: "env \<Rightarrow> call \<Rightarrow> storeobj act" where
  "call_store E c = extern E c store_ret RStore"

definition call_val :: "env \<Rightarrow> call \<Rightarrow> jsval act" where
  "call_val E c = extern E c val_ret RVal"

definition call_template :: "env \<Rightarrow> call \<Rightarrow> tpl option act" where
  "call_template E c = extern E c template_ret RTpl"

definition call_html :: "env \<Rightarrow> call \<Rightarrow> tpl act" where
  "call_html E c = extern E c html_ret (\<lambda>t. RTpl (Some t))"

definition call_bool :: "env \<Rightarrow> call \<Rightarrow> bool act" where
  "call_bool E c = extern E c bool_ret RBool"

definition call_query :: "env \<Rightarrow> call \<Rightarrow> node option act" where
  "call_query E c = extern E c query_ret RNode"

definition call_node :: "env \<Rightarrow> call \<Rightarrow> node act" where
  "call_node E c = extern E c node_ret (\<lambda>n. RNode (Some n))"

definition call_parsed :: "env \<Rightarrow> call \<Rightarrow> parsed act" where
  "call_parsed E c = extern E c parsed_ret RParsed"

text \<open>The events an action appended, read off the states before and after.\<close>

definition emitted :: "elem \<Rightarrow> elem \<Rightarrow> event list" where
  "emitted s s' = drop (length (trace s)) (trace s')"

section \<open>JavaScript objects used as dictionaries\<close>

text \<open>
  \<open>this.subscriptions\<close> and the initial \<open>this.data\<close> are object literals \<open>{}\<close>.
  Their own properties are the association list; a read of a key that is no own
  property falls through to \<open>Object.prototype\<close>, whose properties are all truthy
  (functions, and the prototype object itself for \<open>__proto__\<close>).
\<close>

definition Object_prototype_keys :: "string list" where
  "Object_prototype_keys =
     [''constructor'', ''__defineGetter__'', ''__defineSetter__'', ''hasOwnProperty'',
      ''__lookupGetter__'', ''__lookupSetter__'', ''isPrototypeOf'',
      ''propertyIsEnumerable'', ''toString'', ''valueOf'', ''__proto__'',
      ''toLocaleString'']"

fun digits_value :: "string \<Rightarrow> nat \<Rightarrow> nat option" where
  "digits_value [] acc = Some acc"
| "digits_value (c # cs) acc =
     (let n = (of_char c :: nat)
      in if 48 \<le> n \<and> n \<le> 57 then digits_value cs (10 * acc + (n - 48)) else None)"

text \<open>A key is an array index when it is the canonical decimal form of a number below \<open>2^32 - 1\<close>.\<close>

definition array_index :: "string \<Rightarrow> nat option" where
  "array_index k =
     (if k = [] \<or> (hd k = CHR ''0'' \<and> k \<noteq> ''0'') then None
      else case digits_value k 0 of
             Some n \<Rightarrow> if n < 4294967295 then Some n else None
           | None \<Rightarrow> None)"

definition index_of :: "string \<times> 'a \<Rightarrow> nat" where
  "index_of p = (case array_index (fst p) of Some n \<Rightarrow> n | None \<Rightarrow> 0)"

text \<open>\<open>Object.values\<close>: array-index keys in ascending order, then the others in creation order.\<close>

definition object_values :: "(string \<times> 'a) list \<Rightarrow> 'a list" where
  "object_values ps =
     map snd (sort_key index_of (filter (\<lambda>p. array_index (fst p) \<noteq> None) ps)) @
     map snd (filter (\<lambda>p. array_index (fst p) = None) ps)"

text \<open>\<open>tagName.replace('-', '')\<close>: a string pattern replaces the first occurrence only.\<close>

fun remove_first_hyphen :: "string \<Rightarrow> string" where
  "remove_first_hyphen [] = []"
| "remove_first_hyphen (c # cs) = (if c = CHR ''-'' then cs else c # remove_first_hyphen cs)"

text \<open>A name or store string is truthy when it is present and not empty.\<close>

definition named :: "string option \<Rightarrow> string option" where
  "named n = (case n of None \<Rightarrow> None | Some x \<Rightarrow> if x = [] then None else Some x)"

text \<open>\<open>name || tagname\<close> in \<open>subscribeToStore\<close>.\<close>

definition sub_key :: "string \<Rightarrow> string option \<Rightarrow> string" where
  "sub_key tag n = (case named n of Some x \<Rightarrow> x | None \<Rightarrow> remove_first_hyphen tag)"

text \<open>
  \<open>this.data[name] = v\<close>. The class body is strict code: the store fails with a
  TypeError when \<open>this.data\<close> is \<open>undefined\<close>, \<open>null\<close> or a primitive. On an object,
  the key \<open>__proto__\<close> reaches the inherited setter and creates no own property.
\<close>

definition put_data :: "string \<Rightarrow> jsval \<Rightarrow> unit act" where
  "put_data k v =
     bindM (gets DATA) (\<lambda>cur.
       case cur of
         Obj ps \<Rightarrow>
           modify (\<lambda>s. s\<lparr>DATA := Obj (if k = ''__proto__'' then ps else AList.update k v ps)\<rparr>)
       | _ \<Rightarrow> throwM TypeError)"

text \<open>The accessors \<open>data\<close> (get and set) and \<open>props\<close>.\<close>

definition get_data :: "elem \<Rightarrow> jsval" where
  "get_data s = DATA s"

definition set_data :: "jsval \<Rightarrow> unit act" where
  "set_data d = modify (\<lambda>s. s\<lparr>DATA := d\<rparr>)"

definition props :: "elem \<Rightarrow> jsval" where
  "props s = DATA s"

section \<open>custom-element.js\<close>

datatype styles_arg = NoStyles | NullStyles | StyleText string

record params =
  p_shadowMode :: "string option"
  p_styles :: styles_arg
  p_stylesheets :: "string list option"

text \<open>
  What \<open>super()\<close> of \<open>HTMLElement\<close> hands to the constructors: the host element with
  its tag name and \<open>data-store\<close> attribute, the module variables, and an empty history.
\<close>

definition HTMLElement :: "string \<Rightarrow> string option \<Rightarrow> bool \<Rightarrow> (string \<Rightarrow> string) option \<Rightarrow> elem" where
  "HTMLElement tag ds dbg sheets =
     \<lparr>tagName = tag, dataset_store = ds, root = None, events = [], rendered = False,
      stylesheets = None, styles = None, DATA = Undefined, subscriptions = [],
      DEBUG = dbg, STYLESHEETS = sheets, trace = []\<rparr>"

text \<open>
  \<open>setShadowRoot\<close>. \<open>shadowMode\<close> defaults to \<open>'open'\<close>; \<open>this.shadowRoot\<close> is
  \<open>null\<close> for a closed root. \<open>styles.substring\<close> is truthy for a string, absent for
  the default \<open>false\<close> (\<open>NoStyles\<close>), and a TypeError for \<open>null\<close>.
\<close>

definition setShadowRoot :: "env \<Rightarrow> params \<Rightarrow> unit act" where
  "setShadowRoot E p =
     thenM (call_proc E (CAttachShadow (case p_shadowMode p of None \<Rightarrow> ''open'' | Some m \<Rightarrow> m)))
    (bindM (call_query E CShadowRoot) (\<lambda>r.
     thenM (modify (\<lambda>s. s\<lparr>root := r\<rparr>))
      (case p_styles p of
         NullStyles \<Rightarrow> throwM TypeError
       | NoStyles \<Rightarrow> returnM ()
       | StyleText t \<Rightarrow>
           bindM (call_node E (CCreateElement ''style'')) (\<lambda>n.
           thenM (modify (\<lambda>s. s\<lparr>styles := Some n\<rparr>))
                 (call_proc E (CSetInnerHTML n t))))))"

text \<open>
  The base constructor; \<open>params\<close> is \<open>None\<close> when \<open>isObject(params)\<close> is false.
  \<open>this.html\<close> and \<open>this.renderTemplate\<close> hold lit-html's two functions and are
  the calls \<open>CHtml\<close> and \<open>CRenderTemplate\<close>.
\<close>

definition CustomElement_constructor :: "env \<Rightarrow> params option \<Rightarrow> unit act" where
  "CustomElement_constructor E ps =
     thenM (modify (\<lambda>s. s\<lparr>root := Some Host, events := [], rendered := False\<rparr>))
      (case ps of
         None \<Rightarrow> returnM ()
       | Some p \<Rightarrow>
           thenM (setShadowRoot E p)
                 (modify (\<lambda>s. s\<lparr>stylesheets :=
                     Some (case p_stylesheets p of None \<Rightarrow> [] | Some l \<Rightarrow> l)\<rparr>)))"

text \<open>Calling a remover \<open>off\<close>.\<close>

fun run_off :: "env \<Rightarrow> off \<Rightarrow> unit act" where
  "run_off E (Off n ev f) = call_proc E (CRemoveEventListener n ev f)"

definition CustomElement_disconnectedCallback :: "env \<Rightarrow> unit act" where
  "CustomElement_disconnectedCallback E = bindM (gets events) (forEach (run_off E))"

text \<open>\<open>on(event, elm, fn)\<close>; \<open>elm\<close> is \<open>None\<close> in the two-argument form, where it becomes \<open>this\<close>.\<close>

definition on :: "env \<Rightarrow> string \<Rightarrow> node option \<Rightarrow> nat \<Rightarrow> off act" where
  "on E ev elm fn =
     (let n = (case elm of None \<Rightarrow> Host | Some x \<Rightarrow> x)
      in thenM (call_proc E (CAddEventListener n ev fn))
        (thenM (modify (\<lambda>s. s\<lparr>events := events s @ [Off n ev fn]\<rparr>))
               (returnM (Off n ev fn))))"

text \<open>\<open>dispatch(event)\<close> with no target and no data: the event is dispatched on \<open>this\<close>.\<close>

definition dispatch :: "env \<Rightarrow> string \<Rightarrow> unit act" where
  "dispatch E ev = thenM (call_proc E (CCustomEvent ev)) (call_proc E (CDispatchEvent ev))"

definition selector :: "env \<Rightarrow> string \<Rightarrow> node option act" where
  "selector E sel =
     bindM (gets root) (\<lambda>r.
       case r of
         None \<Rightarrow> throwM TypeError
       | Some n \<Rightarrow> call_query E (CQuerySelector n sel))"

definition root_appendChild :: "env \<Rightarrow> node \<Rightarrow> unit act" where
  "root_appendChild E child =
     bindM (gets root) (\<lambda>r.
       case r of
         None \<Rightarrow> throwM TypeError
       | Some n \<Rightarrow> call_proc E (CAppendChild n child))"

text \<open>The body of the \<open>map\<close> in \<open>buildStylesheets\<close>, for one stylesheet name.\<close>

definition add_link :: "env \<Rightarrow> string \<Rightarrow> unit act" where
  "add_link E sheet =
     bindM (call_node E (CCreateElement ''link'')) (\<lambda>elm.
     thenM (call_proc E (CSetAttribute elm ''rel'' ''stylesheet''))
    (thenM (bindM (gets STYLESHEETS) (\<lambda>sheets.
              case sheets of
                None \<Rightarrow> throwM TypeError
              | Some f \<Rightarrow> call_proc E (CSetAttribute elm ''href'' (f sheet))))
           (root_appendChild E elm)))"

definition buildStylesheets :: "env \<Rightarrow> unit act" where
  "buildStylesheets E =
     bindM (gets stylesheets) (\<lambda>own.
       case own of
         None \<Rightarrow> returnM ()
       | Some sheets \<Rightarrow>
           bindM (selector E ''link'') (\<lambda>link.
             case link of
               None \<Rightarrow> forEach (add_link E) sheets
             | Some _ \<Rightarrow> returnM ()))"

text \<open>The last step of \<open>render\<close> before the timer: the style element, when there is one.\<close>

definition append_styles :: "env \<Rightarrow> unit act" where
  "append_styles E =
     bindM (gets styles) (\<lambda>own.
       case own of
         None \<Rightarrow> returnM ()
       | Some st \<Rightarrow>
           bindM (selector E ''style'') (\<lambda>found.
             case found of
               None \<Rightarrow> root_appendChild E st
             | Some _ \<Rightarrow> returnM ()))"

text \<open>
  \<open>render\<close>. The hooks \<open>preRenderCheck\<close>, \<open>beforeRender\<close> and \<open>template\<close> are what a
  subclass overrides; they see the element's data. The result is \<open>Some []\<close> for the early
  return of the empty string and \<open>None\<close> for \<open>undefined\<close>.
\<close>

definition render :: "env \<Rightarrow> string option act" where
  "render E =
     bindM (bindM (gets DATA) (\<lambda>d. call_bool E (CPreRenderCheck d))) (\<lambda>ok.
       if \<not> ok then returnM (Some [])
       else
         thenM (bindM (gets DATA) (\<lambda>d. call_proc E (CHook BeforeRender d)))
        (bindM (bindM (gets DATA) (\<lambda>d. call_template E (CTemplate d))) (\<lambda>t.
         bindM (case t of None \<Rightarrow> call_html E CHtml | Some x \<Rightarrow> returnM x) (\<lambda>tp.
         thenM (bindM (gets root) (\<lambda>r. call_proc E (CRenderTemplate tp r)))
        (thenM (buildStylesheets E)
        (thenM (append_styles E)
        (thenM (call_proc E (CSetTimeout PostRender (Some 200)))
               (returnM None))))))))"

definition connectedCallback :: "env \<Rightarrow> unit act" where
  "connectedCallback E = thenM (render E) (returnM ())"

text \<open>The closure that \<open>render\<close> defers by 200 ms.\<close>

definition post_render :: "env \<Rightarrow> unit act" where
  "post_render E =
     thenM (bindM (gets rendered) (\<lambda>done.
              if \<not> done
              then thenM (bindM (gets DATA) (\<lambda>d. call_proc E (CHook OnFirstRender d)))
                         (modify (\<lambda>s. s\<lparr>rendered := True\<rparr>))
              else returnM ()))
    (thenM (bindM (gets DATA) (\<lambda>d. call_proc E (CHook OnRender d)))
           (dispatch E ''rendered''))"

section \<open>reactive-custom-element.js\<close>

definition constructor :: "env \<Rightarrow> params option \<Rightarrow> unit act" where
  "constructor E ps =
     thenM (CustomElement_constructor E ps)
           (modify (\<lambda>s. s\<lparr>DATA := Obj [], subscriptions := []\<rparr>))"

text \<open>
  \<open>unsubscribeFromStore\<close>. The guard reads \<open>this.subscriptions[name]\<close>: an own entry is
  a handle object and truthy; with no own entry the read reaches \<open>Object.prototype\<close>,
  and for one of its keys the value is truthy but has no \<open>unsubscribe\<close> method, so the
  call in the body is a TypeError.
\<close>

definition unsubscribeFromStore :: "env \<Rightarrow> string \<Rightarrow> unit act" where
  "unsubscribeFromStore E name =
     bindM (gets subscriptions) (\<lambda>subs.
       case map_of subs name of
         None \<Rightarrow> if name \<in> set Object_prototype_keys then throwM TypeError else returnM ()
       | Some h \<Rightarrow> call_proc E (CUnsubscribe h))"

text \<open>
  \<open>unsubscribeFromAllStores\<close>. The guard \<open>Object.keys(this.subscriptions)\<close> is an array
  and always truthy.
\<close>

definition unsubscribeFromAllStores :: "env \<Rightarrow> unit act" where
  "unsubscribeFromAllStores E =
     thenM (bindM (gets subscriptions) (\<lambda>subs.
              forEach (\<lambda>h. call_proc E (CUnsubscribe h)) (object_values subs)))
           (modify (\<lambda>s. s\<lparr>subscriptions := []\<rparr>))"

definition disconnectedCallback :: "env \<Rightarrow> unit act" where
  "disconnectedCallback E =
     thenM (CustomElement_disconnectedCallback E) (unsubscribeFromAllStores E)"

text \<open>The closure logged under \<open>DEBUG\<close>, deferred by 1100 ms.\<close>

definition to_lower :: "string \<Rightarrow> string" where
  "to_lower cs =
     map (\<lambda>c. let n = (of_char c :: nat) in if 65 \<le> n \<and> n \<le> 90 then char_of (n + 32) else c) cs"

definition debug_log :: "env \<Rightarrow> unit act" where
  "debug_log E = bindM (gets tagName) (\<lambda>tag. call_proc E (CConsoleLog (to_lower tag)))"

text \<open>
  \<open>name ? this.data[name] = data : this.data = data\<close>, shared by the update callback
  and by \<open>subscribeToStore\<close>.
\<close>

definition store_data :: "string option \<Rightarrow> jsval \<Rightarrow> unit act" where
  "store_data name v = (case named name of None \<Rightarrow> set_data v | Some n \<Rightarrow> put_data n v)"

text \<open>
  The callback returned by \<open>updateData(name)\<close>, applied to the data the store passes
  (its two further arguments are unused).
\<close>

definition updateData :: "env \<Rightarrow> string option \<Rightarrow> jsval \<Rightarrow> unit act" where
  "updateData E name d =
     thenM (bindM (gets DATA) (\<lambda>cur. call_proc E (CHook BeforeUpdate cur)))
    (thenM (store_data name d)
    (thenM (render E)
           (bindM (gets DEBUG) (\<lambda>dbg.
              whenM dbg (call_proc E (CSetTimeout DebugLog (Some 1100)))))))"

text \<open>
  The second half of \<open>subscribeToStore\<close> (from \<open>if (name)\<close> on): \<open>Data(store)\<close> and
  \<open>getDataFromPath\<close> are evaluated, the value is stored, and the element is rendered
  when \<open>dorender\<close> is set.
\<close>

definition populate :: "env \<Rightarrow> descriptor \<Rightarrow> bool \<Rightarrow> unit act" where
  "populate E d dorender =
     bindM (call_val E (CData (d_store d))) (\<lambda>dv.
     bindM (call_val E (CGetDataFromPath (d_storePath d) (d_just d) (d_not d) dv)) (\<lambda>v.
     thenM (store_data (d_name d) v)
           (whenM dorender (thenM (render E) (returnM ())))))"

text \<open>
  \<open>subscribeToStore\<close>. The store call and its arguments are evaluated before the handle
  is stored under the key.
\<close>

definition subscribeToStore :: "env \<Rightarrow> descriptor \<Rightarrow> bool \<Rightarrow> unit act" where
  "subscribeToStore E d dorender =
     bindM (gets tagName) (\<lambda>tag.
     thenM (unsubscribeFromStore E (sub_key tag (d_name d)))
    (bindM (call_store E (CStore (d_store d))) (\<lambda>st.
     bindM (call_handle E (CSubscribe st (UpdateData (d_name d))
                             (d_storePath d) (d_just d) (d_not d) (d_name d))) (\<lambda>h.
     thenM (modify (\<lambda>s. s\<lparr>subscriptions :=
                            AList.update (sub_key tag (d_name d)) h (subscriptions s)\<rparr>))
           (populate E d dorender)))))"

text \<open>\<open>setStore(store)\<close>; \<open>Boolean(store)\<close> is the truthiness of the argument.\<close>

definition setStore :: "env \<Rightarrow> string option \<Rightarrow> unit act" where
  "setStore E store =
     bindM (case named store of
              None \<Rightarrow> bindM (gets dataset_store) (\<lambda>ds. call_parsed E (CParse ds))
            | Some x \<Rightarrow> call_parsed E (CParse (Some x))) (\<lambda>stores.
       case stores of
         Many ds \<Rightarrow> forEach (\<lambda>d. subscribeToStore E d (named store \<noteq> None)) ds
       | One d \<Rightarrow> subscribeToStore E d (named store \<noteq> None))"

definition attributeChangedCallback :: "env \<Rightarrow> string \<Rightarrow> unit act" where
  "attributeChangedCallback E attr =
     (if attr = ''data-store''
      then thenM (setStore E None) (call_proc E (CSetTimeout RenderBound None))
      else returnM ())"

text \<open>What the host runtime does when a deferred callback comes due.\<close>

definition run_callback :: "env \<Rightarrow> callback \<Rightarrow> unit act" where
  "run_callback E cb =
     (case cb of
        RenderBound \<Rightarrow> thenM (render E) (returnM ())
      | PostRender \<Rightarrow> post_render E
      | DebugLog \<Rightarrow> debug_log E)"

text \<open>An environment in which no call throws, for running the model on concrete inputs.\<close>

definition quiet :: env where
  "quiet =
     \<lparr>throws = (\<lambda>_ _. None),
      handle_ret = (\<lambda>tr _. length tr),
      store_ret = (\<lambda>_ _. 0),
      val_ret = (\<lambda>_ c. case c of CGetDataFromPath _ _ _ dv \<Rightarrow> dv | _ \<Rightarrow> Prim ''1''),
      template_ret = (\<lambda>_ _. None),
      html_ret = (\<lambda>_ _. 0),
      bool_ret = (\<lambda>_ _. True),
      query_ret = (\<lambda>_ c. case c of CShadowRoot \<Rightarrow> Some (Ext 0) | _ \<Rightarrow> None),
      node_ret = (\<lambda>tr _. Ext (length tr)),
      parsed_ret = (\<lambda>_ _. Many [])\<rparr>"

section \<open>Properties of actions\<close>

text \<open>
  A property of an action is a relation between the state before, the error it ended
  with (if any) and the state after. An action obeys the relation when every run does.
\<close>

definition failure :: "(error + 'a) \<times> elem \<Rightarrow> error option" where
  "failure rs = (case fst rs of Inl e \<Rightarrow> Some e | Inr _ \<Rightarrow> None)"

definition obeys :: "(elem \<Rightarrow> error option \<Rightarrow> elem \<Rightarrow> bool) \<Rightarrow> 'a act \<Rightarrow> bool" where
  "obeys R m = (\<forall>s. R s (failure (m s)) (snd (m s)))"

text \<open>A relation composes along sequencing when it holds of doing nothing and is transitive.\<close>

definition composable :: "(elem \<Rightarrow> error option \<Rightarrow> elem \<Rightarrow> bool) \<Rightarrow> bool" where
  "composable R = ((\<forall>s. R s None s) \<and> (\<forall>s s1 r s2. R s None s1 \<longrightarrow> R s1 r s2 \<longrightarrow> R s r s2))"

fun raised :: "outcome \<Rightarrow> error option" where
  "raised (Threw x) = Some (Thrown x)"
| "raised (Ret v) = None"

text \<open>
  A relation honours a class of calls when it composes, holds of a TypeError that leaves
  the state alone, and holds of logging any call of the class with any outcome.
\<close>

definition honours :: "(elem \<Rightarrow> error option \<Rightarrow> elem \<Rightarrow> bool) \<Rightarrow> (call \<Rightarrow> bool) \<Rightarrow> bool" where
  "honours R C =
     (composable R \<and> (\<forall>s. R s (Some TypeError) s) \<and>
      (\<forall>s c out. C c \<longrightarrow> R s (raised out) (s\<lparr>trace := trace s @ [Ev c out]\<rparr>)))"

text \<open>Relations that allow a write to the data, to the subscriptions, to anything but the trace.\<close>

definition data_free :: "(elem \<Rightarrow> error option \<Rightarrow> elem \<Rightarrow> bool) \<Rightarrow> bool" where
  "data_free R = (\<forall>s v. R s None (s\<lparr>DATA := v\<rparr>))"

definition subs_free :: "(elem \<Rightarrow> error option \<Rightarrow> elem \<Rightarrow> bool) \<Rightarrow> bool" where
  "subs_free R = (\<forall>s g. R s None (s\<lparr>subscriptions := g\<rparr>))"

definition frame_free :: "(elem \<Rightarrow> error option \<Rightarrow> elem \<Rightarrow> bool) \<Rightarrow> bool" where
  "frame_free R = (\<forall>s s'. trace s' = trace s \<longrightarrow> R s None s')"

subsection \<open>Classes of calls\<close>

text \<open>The DOM calls \<open>render\<close> makes itself, for stylesheet links and the style element.\<close>

fun style_call :: "call \<Rightarrow> bool" where
  "style_call (CQuerySelector r q) = True"
| "style_call (CCreateElement t) = True"
| "style_call (CSetAttribute n a v) = True"
| "style_call (CAppendChild r n) = True"
| "style_call _ = False"

fun render_call :: "call \<Rightarrow> bool" where
  "render_call (CPreRenderCheck d) = True"
| "render_call (CHook h d) = (h = BeforeRender)"
| "render_call (CTemplate d) = True"
| "render_call CHtml = True"
| "render_call (CRenderTemplate t r) = True"
| "render_call (CSetTimeout cb d) = (cb = PostRender)"
| "render_call c = style_call c"

fun unsubscribe_call :: "call \<Rightarrow> bool" where
  "unsubscribe_call (CUnsubscribe h) = True"
| "unsubscribe_call _ = False"

fun data_call :: "call \<Rightarrow> bool" where
  "data_call (CData st) = True"
| "data_call (CGetDataFromPath p j n d) = True"
| "data_call _ = False"

text \<open>The API of reactive-data-store.\<close>

fun store_call :: "call \<Rightarrow> bool" where
  "store_call (CParse x) = True"
| "store_call (CStore st) = True"
| "store_call (CSubscribe st cb p j n name) = True"
| "store_call (CUnsubscribe h) = True"
| "store_call c = data_call c"

fun update_call :: "call \<Rightarrow> bool" where
  "update_call (CHook h d) = (h = BeforeUpdate \<or> h = BeforeRender)"
| "update_call (CSetTimeout cb d) = (cb = PostRender \<or> cb = DebugLog)"
| "update_call c = render_call c"

fun teardown_call :: "call \<Rightarrow> bool" where
  "teardown_call (CUnsubscribe h) = True"
| "teardown_call (CRemoveEventListener n ev f) = True"
| "teardown_call _ = False"

definition on_call :: "(call \<Rightarrow> bool) \<Rightarrow> event \<Rightarrow> bool" where
  "on_call C e = (case e of Ev c out \<Rightarrow> C c)"

subsection \<open>Frames\<close>

text \<open>
  \<open>tracing C\<close>: nothing but the trace changes, and every call made is in \<open>C\<close>.
  \<open>data_tracing C\<close> allows the data to change as well, \<open>maps_tracing C\<close> the data
  and the subscriptions.
\<close>

definition tracing :: "(call \<Rightarrow> bool) \<Rightarrow> elem \<Rightarrow> error option \<Rightarrow> elem \<Rightarrow> bool" where
  "tracing C s r s' = (\<exists>new. s' = s\<lparr>trace := trace s @ new\<rparr> \<and> list_all (on_call C) new)"

definition data_tracing :: "(call \<Rightarrow> bool) \<Rightarrow> elem \<Rightarrow> error option \<Rightarrow> elem \<Rightarrow> bool" where
  "data_tracing C s r s' =
     (\<exists>new v. s' = s\<lparr>DATA := v, trace := trace s @ new\<rparr> \<and> list_all (on_call C) new)"

definition maps_tracing :: "(call \<Rightarrow> bool) \<Rightarrow> elem \<Rightarrow> error option \<Rightarrow> elem \<Rightarrow> bool" where
  "maps_tracing C s r s' =
     (\<exists>new v g. s' = s\<lparr>DATA := v, subscriptions := g, trace := trace s @ new\<rparr> \<and>
        list_all (on_call C) new)"

subsection \<open>Error propagation\<close>

fun threw :: "event \<Rightarrow> bool" where
  "threw (Ev c (Threw x)) = True"
| "threw (Ev c (Ret v)) = False"

text \<open>
  An action propagates errors when the trace only grows and one of two things holds:
  it ended with the error \<open>x\<close> of an external call, that call is the last one it made
  and no earlier call threw; or it ended otherwise (normally, or with a TypeError of
  the runtime) and no call it made threw.
\<close>

definition propagating :: "elem \<Rightarrow> error option \<Rightarrow> elem \<Rightarrow> bool" where
  "propagating s r s' =
     (\<exists>new. trace s' = trace s @ new \<and>
        (case r of
           Some (Thrown x) \<Rightarrow> (\<exists>c pre. new = pre @ [Ev c (Threw x)] \<and> \<not> list_ex threw pre)
         | _ \<Rightarrow> \<not> list_ex threw new))"

section \<open>Sample elements\<close>

text \<open>An element \<open><my-el>\<close> just constructed, and after a named and an unnamed subscription.\<close>

definition fresh :: elem where
  "fresh = snd (constructor quiet None (HTMLElement ''MY-EL'' None False None))"

definition user_store :: descriptor where
  "user_store = \<lparr>d_name = Some ''user'', d_store = Some ''app'', d_storePath = Undefined,
     d_just = Undefined, d_not = Undefined\<rparr>"

definition whole_store :: descriptor where
  "whole_store = \<lparr>d_name = None, d_store = Some ''app'', d_storePath = Undefined,
     d_just = Undefined, d_not = Undefined\<rparr>"

definition subscribed_twice :: elem where
  "subscribed_twice =
     snd (subscribeToStore quiet whole_store False (snd (subscribeToStore quiet user_store False fresh)))"

text \<open>An environment whose store refuses every subscription.\<close>

definition subscribe_fails :: env where
  "subscribe_fails =
     quiet\<lparr>throws := (\<lambda>tr c. case c of CSubscribe st cb p j n name \<Rightarrow> Some ''store is closed'' | _ \<Rightarrow> None)\<rparr>"


section \<open>Reading the two mappings\<close>



definition tag_store :: descriptor where
  "tag_store = \<lparr>d_name = Some ''MY-EL'', d_store = Some ''app'', d_storePath = Undefined,
     d_just = Undefined, d_not = Undefined\<rparr>"

text \<open>The element after a subscription named like its tag.\<close>

definition tag_named :: elem where
  "tag_named = snd (subscribeToStore quiet tag_store False fresh)"

text \<open>An environment whose \<open>data-store\<close> attribute parses to one named store.\<close>

definition one_store :: env where
  "one_store = quiet\<lparr>parsed_ret := (\<lambda>_ _. One user_store)\<rparr>"

section \<open>The subscription bookkeeping\<close>

text \<open>The calls \<open>attributeChangedCallback\<close> can make.\<close>

definition attribute_call :: "call \<Rightarrow> bool" where
  "attribute_call c = (store_call c \<or> c = CSetTimeout RenderBound None)"

text \<open>A \<open>subscribe\<close> call that returned: the name it was given and the handle.\<close>

fun subscribe_result :: "event \<Rightarrow> (string option \<times> handle) option" where
  "subscribe_result (Ev (CSubscribe st cb p j n name) (Ret (RHandle h))) = Some (name, h)"
| "subscribe_result _ = None"

text \<open>
  The state \<open>subscribeToStore\<close> reaches once the handle is stored: the previous handle of
  the key (if any) unsubscribed, the store looked up, \<open>subscribe\<close> returned \<open>h\<close>.
\<close>

definition subscribed :: "elem \<Rightarrow> descriptor \<Rightarrow> storeobj \<Rightarrow> handle \<Rightarrow> elem" where
  "subscribed s d st h =
     s\<lparr>subscriptions := AList.update (sub_key (tagName s) (d_name d)) h (subscriptions s),
       trace := trace s @
         (case map_of (subscriptions s) (sub_key (tagName s) (d_name d)) of
            None \<Rightarrow> []
          | Some h0 \<Rightarrow> [Ev (CUnsubscribe h0) (Ret RUnit)]) @
         [Ev (CStore (d_store d)) (Ret (RStore st)),
          Ev (CSubscribe st (UpdateData (d_name d)) (d_storePath d) (d_just d) (d_not d) (d_name d))
             (Ret (RHandle h))]\<rparr>"



text \<open>
  The key as the specification words it: the name, or the element's tag name when no
  name is given. The code's key is \<open>sub_key\<close>.
\<close>

definition claimed_key :: "string \<Rightarrow> string option \<Rightarrow> string" where
  "claimed_key tag n = (case named n of Some x \<Rightarrow> x | None \<Rightarrow> tag)"




section \<open>How actions compose\<close>

lemma obeysD: "obeys R m \<Longrightarrow> R s (failure (m s)) (snd (m s))"
  by (simp add: obeys_def)

lemma honours_composable: "honours R C \<Longrightarrow> composable R"
  by (simp add: honours_def)

lemma honours_mono: "honours R C \<Longrightarrow> (\<And>c. C' c \<Longrightarrow> C c) \<Longrightarrow> honours R C'"
  by (simp add: honours_def)

lemma frame_free_data_free: "frame_free R \<Longrightarrow> data_free R"
  by (simp add: frame_free_def data_free_def)

lemma obeys_returnM: "composable R \<Longrightarrow> obeys R (returnM v)"
  by (simp add: obeys_def composable_def returnM_def failure_def)

lemma obeys_TypeError: "honours R C \<Longrightarrow> obeys R (throwM TypeError)"
  by (simp add: obeys_def honours_def throwM_def failure_def)

lemma obeys_bindM:
  assumes R: "composable R" and m: "obeys R m" and f: "\<And>v. obeys R (f v)"
  shows "obeys R (bindM m f)"
  unfolding obeys_def
proof
  fix s :: elem
  obtain r s1 where ms: "m s = (r, s1)" by (cases "m s")
  show "R s (failure (bindM m f s)) (snd (bindM m f s))"
  proof (cases r)
    case (Inl e)
    with ms obeysD[OF m, of s] show ?thesis
      by (simp add: bindM_def failure_def)
  next
    case (Inr v)
    with ms obeysD[OF m, of s] have "R s None s1" by (simp add: failure_def)
    moreover have "R s1 (failure (f v s1)) (snd (f v s1))" by (rule obeysD[OF f])
    ultimately have "R s (failure (f v s1)) (snd (f v s1))"
      using R unfolding composable_def by blast
    with ms Inr show ?thesis by (simp add: bindM_def)
  qed
qed

lemma obeys_thenM: "composable R \<Longrightarrow> obeys R m \<Longrightarrow> obeys R n \<Longrightarrow> obeys R (thenM m n)"
  unfolding thenM_def by (rule obeys_bindM)

lemma obeys_whenM: "composable R \<Longrightarrow> obeys R m \<Longrightarrow> obeys R (whenM b m)"
  by (simp add: whenM_def obeys_returnM)

lemma obeys_forEach: "composable R \<Longrightarrow> (\<And>x. obeys R (f x)) \<Longrightarrow> obeys R (forEach f xs)"
  by (induction xs) (simp_all add: obeys_returnM obeys_thenM)

lemma obeys_if: "(b \<Longrightarrow> obeys R m) \<Longrightarrow> (\<not> b \<Longrightarrow> obeys R n) \<Longrightarrow> obeys R (if b then m else n)"
  by simp

lemma obeys_case_option:
  "(t = None \<Longrightarrow> obeys R a) \<Longrightarrow> (\<And>x. t = Some x \<Longrightarrow> obeys R (b x)) \<Longrightarrow>
   obeys R (case t of None \<Rightarrow> a | Some x \<Rightarrow> b x)"
  by (cases t) simp_all

lemma obeys_state: "(\<And>s. obeys R (m s)) \<Longrightarrow> obeys R (\<lambda>s. m s s)"
  by (simp add: obeys_def)

lemma obeys_extern:
  "honours R C \<Longrightarrow> (\<And>s. C (c s)) \<Longrightarrow> obeys R (\<lambda>s. extern E (c s) get wrap s)"
  unfolding obeys_def honours_def extern_def failure_def
proof (intro allI)
  fix s :: elem
  assume a: "composable R \<and> (\<forall>s. R s (Some TypeError) s) \<and>
      (\<forall>s c out. C c \<longrightarrow> R s (raised out) (s\<lparr>trace := trace s @ [Ev c out]\<rparr>))"
    and c: "\<And>s. C (c s)"
  show "R s (case fst (case throws E (trace s) (c s) of
                    None \<Rightarrow> let v = get E (trace s) (c s) in (Inr v, s\<lparr>trace := trace s @ [Ev (c s) (Ret (wrap v))]\<rparr>)
                  | Some x \<Rightarrow> (Inl (Thrown x), s\<lparr>trace := trace s @ [Ev (c s) (Threw x)]\<rparr>)) of
             Inl e \<Rightarrow> Some e | Inr x \<Rightarrow> None)
          (snd (case throws E (trace s) (c s) of
                 None \<Rightarrow> let v = get E (trace s) (c s) in (Inr v, s\<lparr>trace := trace s @ [Ev (c s) (Ret (wrap v))]\<rparr>)
               | Some x \<Rightarrow> (Inl (Thrown x), s\<lparr>trace := trace s @ [Ev (c s) (Threw x)]\<rparr>)))"
  proof (cases "throws E (trace s) (c s)")
    case None
    from a c[of s] have "R s (raised (Ret (wrap (get E (trace s) (c s)))))
        (s\<lparr>trace := trace s @ [Ev (c s) (Ret (wrap (get E (trace s) (c s))))]\<rparr>)" by blast
    with None show ?thesis by (simp add: Let_def)
  next
    case (Some x)
    from a c[of s] have "R s (raised (Threw x)) (s\<lparr>trace := trace s @ [Ev (c s) (Threw x)]\<rparr>)"
      by blast
    with Some show ?thesis by simp
  qed
qed

lemma obeys_calls:
  assumes "honours R C" and "\<And>s. C (c s)"
  shows "obeys R (\<lambda>s. call_proc E (c s) s)"
    and "obeys R (\<lambda>s. call_bool E (c s) s)"
    and "obeys R (\<lambda>s. call_template E (c s) s)"
    and "obeys R (\<lambda>s. call_html E (c s) s)"
    and "obeys R (\<lambda>s. call_query E (c s) s)"
    and "obeys R (\<lambda>s. call_node E (c s) s)"
    and "obeys R (\<lambda>s. call_handle E (c s) s)"
    and "obeys R (\<lambda>s. call_store E (c s) s)"
    and "obeys R (\<lambda>s. call_val E (c s) s)"
    and "obeys R (\<lambda>s. call_parsed E (c s) s)"
  unfolding call_proc_def call_bool_def call_template_def call_html_def call_query_def
    call_node_def call_handle_def call_store_def call_val_def call_parsed_def
  by (rule obeys_extern[OF assms])+

lemma obeys_gets: "composable R \<Longrightarrow> obeys R (gets f)"
  by (simp add: obeys_def composable_def gets_def failure_def)

lemma obeys_modify: "(\<And>s. R s None (f s)) \<Longrightarrow> obeys R (modify f)"
  by (simp add: obeys_def modify_def failure_def)

lemma obeys_case_jsval:
  "obeys R a \<Longrightarrow> obeys R b \<Longrightarrow> (\<And>x. obeys R (c x)) \<Longrightarrow> (\<And>x. obeys R (d x)) \<Longrightarrow>
   obeys R (case v of Undefined \<Rightarrow> a | Null \<Rightarrow> b | Prim x \<Rightarrow> c x | Obj x \<Rightarrow> d x)"
  by (cases v) simp_all

lemma obeys_case_parsed:
  "(\<And>x. obeys R (a x)) \<Longrightarrow> (\<And>x. obeys R (b x)) \<Longrightarrow>
   obeys R (case v of One x \<Rightarrow> a x | Many x \<Rightarrow> b x)"
  by (cases v) simp_all

lemma obeys_case_styles:
  "obeys R a \<Longrightarrow> obeys R b \<Longrightarrow> (\<And>x. obeys R (c x)) \<Longrightarrow>
   obeys R (case v of NoStyles \<Rightarrow> a | NullStyles \<Rightarrow> b | StyleText x \<Rightarrow> c x)"
  by (cases v) simp_all

lemma obeys_case_callback:
  "obeys R a \<Longrightarrow> obeys R b \<Longrightarrow> obeys R c \<Longrightarrow>
   obeys R (case v of RenderBound \<Rightarrow> a | PostRender \<Rightarrow> b | DebugLog \<Rightarrow> c)"
  by (cases v) simp_all

lemmas obeys_struct =
  obeys_if obeys_case_option obeys_case_jsval obeys_case_parsed obeys_case_styles
  obeys_case_callback

lemma style_call_render: "style_call c \<Longrightarrow> render_call c"
  by (cases c) simp_all


lemma selector_obeys:
  assumes h: "honours R style_call"
  shows "obeys R (selector E q)"
proof -
  note c = honours_composable[OF h]
  show ?thesis
    unfolding selector_def
    by (intro obeys_bindM[OF c] obeys_gets[OF c] obeys_TypeError[OF h] obeys_struct
          obeys_calls[OF h]; simp?)
qed

lemma root_appendChild_obeys:
  assumes h: "honours R style_call"
  shows "obeys R (root_appendChild E n)"
proof -
  note c = honours_composable[OF h]
  show ?thesis
    unfolding root_appendChild_def
    by (intro obeys_bindM[OF c] obeys_gets[OF c] obeys_TypeError[OF h] obeys_struct
          obeys_calls[OF h]; simp?)
qed

lemma add_link_obeys:
  assumes h: "honours R style_call"
  shows "obeys R (add_link E sheet)"
proof -
  note c = honours_composable[OF h]
  show ?thesis
    unfolding add_link_def
    by (intro obeys_bindM[OF c] obeys_thenM[OF c] obeys_gets[OF c] obeys_TypeError[OF h]
          obeys_struct obeys_calls[OF h] root_appendChild_obeys[OF h]; simp?)
qed

lemma buildStylesheets_obeys:
  assumes h: "honours R style_call"
  shows "obeys R (buildStylesheets E)"
proof -
  note c = honours_composable[OF h]
  show ?thesis
    unfolding buildStylesheets_def
    by (intro obeys_bindM[OF c] obeys_gets[OF c] obeys_returnM[OF c] obeys_forEach[OF c]
          obeys_struct selector_obeys[OF h] add_link_obeys[OF h]; simp?)
qed

lemma append_styles_obeys:
  assumes h: "honours R style_call"
  shows "obeys R (append_styles E)"
proof -
  note c = honours_composable[OF h]
  show ?thesis
    unfolding append_styles_def
    by (intro obeys_bindM[OF c] obeys_gets[OF c] obeys_returnM[OF c]
          obeys_struct selector_obeys[OF h] root_appendChild_obeys[OF h]; simp?)
qed

lemma render_obeys:
  assumes h: "honours R render_call"
  shows "obeys R (render E)"
proof -
  note c = honours_composable[OF h]
  have st: "honours R style_call"
    by (rule honours_mono[OF h]) (rule style_call_render)
  show ?thesis
    unfolding render_def
    by (intro obeys_bindM[OF c] obeys_thenM[OF c] obeys_returnM[OF c] obeys_gets[OF c]
          obeys_struct obeys_calls[OF h] buildStylesheets_obeys[OF st]
          append_styles_obeys[OF st]; simp?)
qed

lemma unsubscribeFromStore_obeys:
  assumes h: "honours R unsubscribe_call"
  shows "obeys R (unsubscribeFromStore E n)"
proof -
  note c = honours_composable[OF h]
  show ?thesis
    unfolding unsubscribeFromStore_def
    by (intro obeys_bindM[OF c] obeys_gets[OF c] obeys_returnM[OF c] obeys_TypeError[OF h]
          obeys_struct obeys_calls[OF h]; simp?)
qed

lemma put_data_obeys:
  assumes h: "honours R C" and d: "data_free R"
  shows "obeys R (put_data k v)"
proof -
  note c = honours_composable[OF h]
  show ?thesis
    unfolding put_data_def
    by (intro obeys_bindM[OF c] obeys_gets[OF c] obeys_TypeError[OF h] obeys_struct
          obeys_modify; simp add: d[unfolded data_free_def])
qed

lemma store_data_obeys:
  assumes h: "honours R C" and d: "data_free R"
  shows "obeys R (store_data n v)"
  unfolding store_data_def set_data_def
  by (intro obeys_struct obeys_modify put_data_obeys[OF h d]; simp add: d[unfolded data_free_def])

lemma frame_free_subs_free: "frame_free R \<Longrightarrow> subs_free R"
  by (simp add: frame_free_def subs_free_def)

lemma data_call_store: "data_call c \<Longrightarrow> store_call c"
  by (cases c) simp_all

lemma unsubscribe_call_store: "unsubscribe_call c \<Longrightarrow> store_call c"
  by (cases c) simp_all

lemma unsubscribe_call_teardown: "unsubscribe_call c \<Longrightarrow> teardown_call c"
  by (cases c) simp_all

lemma render_call_update: "render_call c \<Longrightarrow> update_call c"
  by (cases c) auto

lemma populate_obeys:
  assumes h: "honours R C" and dc: "\<And>c. data_call c \<Longrightarrow> C c"
    and rc: "r \<Longrightarrow> (\<And>c. render_call c \<Longrightarrow> C c)" and d: "data_free R"
  shows "obeys R (populate E desc r)"
proof -
  note c = honours_composable[OF h]
  have rest: "obeys R (whenM r (thenM (render E) (returnM ())))"
  proof (cases r)
    case True
    have "honours R render_call"
      by (rule honours_mono[OF h]) (rule rc[OF True])
    then show ?thesis
      by (intro obeys_whenM[OF c] obeys_thenM[OF c] obeys_returnM[OF c] render_obeys)
  next
    case False
    then show ?thesis by (simp add: whenM_def obeys_returnM[OF c])
  qed
  show ?thesis
    unfolding populate_def
    by (intro obeys_bindM[OF c] obeys_thenM[OF c] obeys_calls[OF h] store_data_obeys[OF h d]
          rest dc; simp)
qed

lemma subscribeToStore_obeys:
  assumes h: "honours R C" and sc: "\<And>c. store_call c \<Longrightarrow> C c"
    and rc: "r \<Longrightarrow> (\<And>c. render_call c \<Longrightarrow> C c)"
    and d: "data_free R" and sf: "subs_free R"
  shows "obeys R (subscribeToStore E desc r)"
proof -
  note c = honours_composable[OF h]
  have u: "honours R unsubscribe_call"
    by (rule honours_mono[OF h]) (rule sc[OF unsubscribe_call_store])
  have p: "obeys R (populate E desc r)"
    by (rule populate_obeys[OF h sc[OF data_call_store] rc d])
  show ?thesis
    unfolding subscribeToStore_def
    by (intro obeys_bindM[OF c] obeys_thenM[OF c] obeys_gets[OF c] obeys_calls[OF h]
          unsubscribeFromStore_obeys[OF u] p obeys_modify sc;
        simp add: sf[unfolded subs_free_def])
qed

lemma setStore_obeys:
  assumes h: "honours R C" and sc: "\<And>c. store_call c \<Longrightarrow> C c"
    and rc: "named store \<noteq> None \<Longrightarrow> (\<And>c. render_call c \<Longrightarrow> C c)"
    and d: "data_free R" and sf: "subs_free R"
  shows "obeys R (setStore E store)"
proof -
  note c = honours_composable[OF h]
  show ?thesis
    unfolding setStore_def
    by (intro obeys_bindM[OF c] obeys_gets[OF c] obeys_forEach[OF c] obeys_struct
          obeys_calls[OF h] subscribeToStore_obeys[OF h sc rc d sf] sc; simp)
qed

lemma attributeChangedCallback_obeys:
  assumes h: "honours R C" and sc: "\<And>c. store_call c \<Longrightarrow> C c"
    and tc: "C (CSetTimeout RenderBound None)"
    and d: "data_free R" and sf: "subs_free R"
  shows "obeys R (attributeChangedCallback E attr)"
proof -
  note c = honours_composable[OF h]
  have "obeys R (setStore E None)"
    by (rule setStore_obeys[OF h sc _ d sf]) (simp_all add: named_def)
  then show ?thesis
    unfolding attributeChangedCallback_def
    by (intro obeys_thenM[OF c] obeys_returnM[OF c] obeys_struct obeys_calls[OF h] tc)
qed

lemma updateData_obeys:
  assumes h: "honours R update_call" and d: "data_free R"
  shows "obeys R (updateData E name v)"
proof -
  note c = honours_composable[OF h]
  have rc: "honours R render_call"
    by (rule honours_mono[OF h]) (rule render_call_update)
  show ?thesis
    unfolding updateData_def
    by (intro obeys_bindM[OF c] obeys_thenM[OF c] obeys_gets[OF c] obeys_whenM[OF c]
          obeys_calls[OF h] store_data_obeys[OF h d] render_obeys[OF rc]; simp)
qed

lemma run_off_obeys:
  assumes h: "honours R teardown_call"
  shows "obeys R (run_off E x)"
  by (cases x) (simp add: obeys_calls(1)[OF h])

lemma CustomElement_disconnectedCallback_obeys:
  assumes h: "honours R teardown_call"
  shows "obeys R (CustomElement_disconnectedCallback E)"
proof -
  note c = honours_composable[OF h]
  show ?thesis
    unfolding CustomElement_disconnectedCallback_def
    by (intro obeys_bindM[OF c] obeys_gets[OF c] obeys_forEach[OF c] run_off_obeys[OF h])
qed

lemma unsubscribeFromAllStores_obeys:
  assumes h: "honours R unsubscribe_call" and sf: "subs_free R"
  shows "obeys R (unsubscribeFromAllStores E)"
proof -
  note c = honours_composable[OF h]
  show ?thesis
    unfolding unsubscribeFromAllStores_def
    by (intro obeys_bindM[OF c] obeys_thenM[OF c] obeys_gets[OF c] obeys_forEach[OF c]
          obeys_calls[OF h] obeys_modify; simp add: sf[unfolded subs_free_def])
qed

lemma disconnectedCallback_obeys:
  assumes h: "honours R teardown_call" and sf: "subs_free R"
  shows "obeys R (disconnectedCallback E)"
proof -
  note c = honours_composable[OF h]
  have u: "honours R unsubscribe_call"
    by (rule honours_mono[OF h]) (rule unsubscribe_call_teardown)
  show ?thesis
    unfolding disconnectedCallback_def
    by (intro obeys_thenM[OF c] CustomElement_disconnectedCallback_obeys[OF h]
          unsubscribeFromAllStores_obeys[OF u sf])
qed

lemma connectedCallback_obeys:
  assumes h: "honours R render_call"
  shows "obeys R (connectedCallback E)"
  unfolding connectedCallback_def
  by (intro obeys_thenM obeys_returnM render_obeys[OF h] honours_composable[OF h])

lemma dispatch_obeys:
  assumes h: "honours R (\<lambda>_. True)"
  shows "obeys R (dispatch E ev)"
  unfolding dispatch_def
  by (intro obeys_thenM obeys_calls[OF h] honours_composable[OF h]; simp)

lemma post_render_obeys:
  assumes h: "honours R (\<lambda>_. True)" and f: "frame_free R"
  shows "obeys R (post_render E)"
proof -
  note c = honours_composable[OF h]
  show ?thesis
    unfolding post_render_def
    by (intro obeys_bindM[OF c] obeys_thenM[OF c] obeys_gets[OF c] obeys_returnM[OF c]
          obeys_struct obeys_calls[OF h] obeys_modify dispatch_obeys[OF h];
        simp add: f[unfolded frame_free_def])
qed

lemma debug_log_obeys:
  assumes h: "honours R (\<lambda>_. True)"
  shows "obeys R (debug_log E)"
  unfolding debug_log_def
  by (intro obeys_bindM obeys_gets obeys_calls[OF h] honours_composable[OF h]; simp)

lemma run_callback_obeys:
  assumes h: "honours R (\<lambda>_. True)" and f: "frame_free R"
  shows "obeys R (run_callback E cb)"
proof -
  note c = honours_composable[OF h]
  have rc: "honours R render_call"
    by (rule honours_mono[OF h]) simp
  show ?thesis
    unfolding run_callback_def
    by (intro obeys_struct obeys_thenM[OF c] obeys_returnM[OF c] render_obeys[OF rc]
          post_render_obeys[OF h f] debug_log_obeys[OF h])
qed

lemma setShadowRoot_obeys:
  assumes h: "honours R (\<lambda>_. True)" and f: "frame_free R"
  shows "obeys R (setShadowRoot E p)"
proof -
  note c = honours_composable[OF h]
  show ?thesis
    unfolding setShadowRoot_def
    by (intro obeys_bindM[OF c] obeys_thenM[OF c] obeys_returnM[OF c] obeys_TypeError[OF h]
          obeys_struct obeys_calls[OF h] obeys_modify;
        simp add: f[unfolded frame_free_def])
qed

lemma constructor_obeys:
  assumes h: "honours R (\<lambda>_. True)" and f: "frame_free R"
  shows "obeys R (constructor E ps)"
proof -
  note c = honours_composable[OF h]
  show ?thesis
    unfolding constructor_def CustomElement_constructor_def
    by (intro obeys_thenM[OF c] obeys_returnM[OF c] obeys_struct obeys_modify
          setShadowRoot_obeys[OF h f]; simp add: f[unfolded frame_free_def])
qed

lemma on_obeys:
  assumes h: "honours R (\<lambda>_. True)" and f: "frame_free R"
  shows "obeys R (on E ev elm fn)"
proof -
  note c = honours_composable[OF h]
  show ?thesis
    unfolding on_def Let_def
    by (intro obeys_thenM[OF c] obeys_returnM[OF c] obeys_calls[OF h] obeys_modify;
        simp add: f[unfolded frame_free_def])
qed

lemma honours_tracing: "honours (tracing C) C"
  unfolding honours_def composable_def tracing_def
proof (intro conjI allI impI)
  fix s :: elem show "\<exists>new. s = s\<lparr>trace := trace s @ new\<rparr> \<and> list_all (on_call C) new"
    by (rule exI[of _ "[]"]) simp
next
  fix s s1 s2 :: elem and r :: "error option"
  assume "\<exists>new. s1 = s\<lparr>trace := trace s @ new\<rparr> \<and> list_all (on_call C) new"
    and "\<exists>new. s2 = s1\<lparr>trace := trace s1 @ new\<rparr> \<and> list_all (on_call C) new"
  then obtain n1 n2 where "s1 = s\<lparr>trace := trace s @ n1\<rparr>" "list_all (on_call C) n1"
    "s2 = s1\<lparr>trace := trace s1 @ n2\<rparr>" "list_all (on_call C) n2" by blast
  then show "\<exists>new. s2 = s\<lparr>trace := trace s @ new\<rparr> \<and> list_all (on_call C) new"
    by (intro exI[of _ "n1 @ n2"]) simp
next
  fix s :: elem show "\<exists>new. s = s\<lparr>trace := trace s @ new\<rparr> \<and> list_all (on_call C) new"
    by (rule exI[of _ "[]"]) simp
next
  fix s :: elem and c out assume "C c"
  then show "\<exists>new. s\<lparr>trace := trace s @ [Ev c out]\<rparr> = s\<lparr>trace := trace s @ new\<rparr> \<and> list_all (on_call C) new"
    by (intro exI[of _ "[Ev c out]"]) (simp add: on_call_def)
qed

lemma honours_data_tracing: "honours (data_tracing C) C"
  unfolding honours_def composable_def data_tracing_def
proof (intro conjI allI impI)
  fix s :: elem show "\<exists>new v. s = s\<lparr>DATA := v, trace := trace s @ new\<rparr> \<and> list_all (on_call C) new"
    by (rule exI[of _ "[]"], rule exI[of _ "DATA s"]) simp
next
  fix s s1 s2 :: elem and r :: "error option"
  assume "\<exists>new v. s1 = s\<lparr>DATA := v, trace := trace s @ new\<rparr> \<and> list_all (on_call C) new"
    and "\<exists>new v. s2 = s1\<lparr>DATA := v, trace := trace s1 @ new\<rparr> \<and> list_all (on_call C) new"
  then obtain n1 n2 v1 v2 where "s1 = s\<lparr>DATA := v1, trace := trace s @ n1\<rparr>" "list_all (on_call C) n1"
    "s2 = s1\<lparr>DATA := v2, trace := trace s1 @ n2\<rparr>" "list_all (on_call C) n2" by blast
  then show "\<exists>new v. s2 = s\<lparr>DATA := v, trace := trace s @ new\<rparr> \<and> list_all (on_call C) new"
    by (intro exI[of _ "n1 @ n2"] exI[of _ v2]) simp
next
  fix s :: elem show "\<exists>new v. s = s\<lparr>DATA := v, trace := trace s @ new\<rparr> \<and> list_all (on_call C) new"
    by (rule exI[of _ "[]"], rule exI[of _ "DATA s"]) simp
next
  fix s :: elem and c out assume "C c"
  then show "\<exists>new v. s\<lparr>trace := trace s @ [Ev c out]\<rparr> = s\<lparr>DATA := v, trace := trace s @ new\<rparr> \<and> list_all (on_call C) new"
    by (intro exI[of _ "[Ev c out]"] exI[of _ "DATA s"]) (simp add: on_call_def)
qed

lemma data_free_data_tracing: "data_free (data_tracing C)"
  unfolding data_free_def data_tracing_def
proof (intro allI)
  fix s :: elem and v
  show "\<exists>new va. s\<lparr>DATA := v\<rparr> = s\<lparr>DATA := va, trace := trace s @ new\<rparr> \<and> list_all (on_call C) new"
    by (intro exI[of _ "[]"] exI[of _ v]) simp
qed

lemma honours_maps_tracing: "honours (maps_tracing C) C"
  unfolding honours_def composable_def maps_tracing_def
proof (intro conjI allI impI)
  fix s :: elem show "\<exists>new v g. s = s\<lparr>DATA := v, subscriptions := g, trace := trace s @ new\<rparr> \<and> list_all (on_call C) new"
    by (rule exI[of _ "[]"], rule exI[of _ "DATA s"], rule exI[of _ "subscriptions s"]) simp
next
  fix s s1 s2 :: elem and r :: "error option"
  assume "\<exists>new v g. s1 = s\<lparr>DATA := v, subscriptions := g, trace := trace s @ new\<rparr> \<and> list_all (on_call C) new"
    and "\<exists>new v g. s2 = s1\<lparr>DATA := v, subscriptions := g, trace := trace s1 @ new\<rparr> \<and> list_all (on_call C) new"
  then obtain n1 n2 v1 v2 g1 g2 where
    "s1 = s\<lparr>DATA := v1, subscriptions := g1, trace := trace s @ n1\<rparr>" "list_all (on_call C) n1"
    "s2 = s1\<lparr>DATA := v2, subscriptions := g2, trace := trace s1 @ n2\<rparr>" "list_all (on_call C) n2"
    by blast
  then show "\<exists>new v g. s2 = s\<lparr>DATA := v, subscriptions := g, trace := trace s @ new\<rparr> \<and> list_all (on_call C) new"
    by (intro exI[of _ "n1 @ n2"] exI[of _ v2] exI[of _ g2]) simp
next
  fix s :: elem show "\<exists>new v g. s = s\<lparr>DATA := v, subscriptions := g, trace := trace s @ new\<rparr> \<and> list_all (on_call C) new"
    by (rule exI[of _ "[]"], rule exI[of _ "DATA s"], rule exI[of _ "subscriptions s"]) simp
next
  fix s :: elem and c out assume "C c"
  then show "\<exists>new v g. s\<lparr>trace := trace s @ [Ev c out]\<rparr> = s\<lparr>DATA := v, subscriptions := g, trace := trace s @ new\<rparr> \<and> list_all (on_call C) new"
    by (intro exI[of _ "[Ev c out]"] exI[of _ "DATA s"] exI[of _ "subscriptions s"])
       (simp add: on_call_def)
qed

lemma data_free_maps_tracing: "data_free (maps_tracing C)"
  unfolding data_free_def maps_tracing_def
proof (intro allI)
  fix s :: elem and v :: jsval
  show "\<exists>new va g. s\<lparr>DATA := v\<rparr> = s\<lparr>DATA := va, subscriptions := g, trace := trace s @ new\<rparr> \<and> list_all (on_call C) new"
    by (intro exI[of _ "[]"] exI[of _ v] exI[of _ "subscriptions s"]) simp
qed

lemma subs_free_maps_tracing: "subs_free (maps_tracing C)"
  unfolding subs_free_def maps_tracing_def
proof (intro allI)
  fix s :: elem and g :: "(string \<times> handle) list"
  show "\<exists>new v ga. s\<lparr>subscriptions := g\<rparr> = s\<lparr>DATA := v, subscriptions := ga, trace := trace s @ new\<rparr> \<and> list_all (on_call C) new"
    by (intro exI[of _ "[]"] exI[of _ "DATA s"] exI[of _ g]) simp
qed

lemma list_ex_threw_snoc: "list_ex threw (xs @ [Ev c (Threw x)])"
  by (simp add: list_ex_iff)

lemma composable_propagating: "composable propagating"
  unfolding composable_def
proof (intro conjI allI impI)
  fix s :: elem show "propagating s None s" by (simp add: propagating_def)
next
  fix s s1 s2 :: elem and r :: "error option"
  assume a: "propagating s None s1" and b: "propagating s1 r s2"
  from a obtain n1 where n1: "trace s1 = trace s @ n1" "\<not> list_ex threw n1"
    by (auto simp: propagating_def)
  from b obtain n2 where n2: "trace s2 = trace s1 @ n2"
    and c: "case r of Some (Thrown x) \<Rightarrow> (\<exists>c pre. n2 = pre @ [Ev c (Threw x)] \<and> \<not> list_ex threw pre)
         | _ \<Rightarrow> \<not> list_ex threw n2"
    by (auto simp: propagating_def)
  show "propagating s r s2"
  proof (cases "\<exists>x. r = Some (Thrown x)")
    case True
    then obtain x where r: "r = Some (Thrown x)" by blast
    with c obtain c' pre where "n2 = pre @ [Ev c' (Threw x)]" "\<not> list_ex threw pre" by auto
    with n1 n2 r show ?thesis
      unfolding propagating_def
      by (intro exI[of _ "n1 @ n2"]) (auto simp: list_ex_iff intro!: exI[of _ "n1 @ pre"])
  next
    case False
    then have "\<not> list_ex threw n2" using c
      by (cases r) (auto split: error.splits)
    with n1 n2 False show ?thesis
      unfolding propagating_def
      by (intro exI[of _ "n1 @ n2"]) (cases r; auto split: error.splits simp: list_ex_iff)
  qed
qed

lemma honours_propagating: "honours propagating (\<lambda>_. True)"
  unfolding honours_def
proof (intro conjI allI impI)
  show "composable propagating" by (rule composable_propagating)
next
  fix s :: elem show "propagating s (Some TypeError) s" by (simp add: propagating_def)
next
  fix s :: elem and c out
  show "propagating s (raised out) (s\<lparr>trace := trace s @ [Ev c out]\<rparr>)"
    by (cases out) (auto simp: propagating_def)
qed

lemma frame_free_propagating: "frame_free propagating"
  by (simp add: frame_free_def propagating_def)

lemma tracingD:
  assumes "obeys (tracing C) m" and "m s = (r, s')"
  shows "\<exists>new. s' = s\<lparr>trace := trace s @ new\<rparr> \<and> list_all (on_call C) new"
  using obeysD[OF assms(1), of s] assms(2) by (simp add: tracing_def)

lemma data_tracingD:
  assumes "obeys (data_tracing C) m" and "m s = (r, s')"
  shows "\<exists>new v. s' = s\<lparr>DATA := v, trace := trace s @ new\<rparr> \<and> list_all (on_call C) new"
  using obeysD[OF assms(1), of s] assms(2) by (simp add: data_tracing_def)

section \<open>Evaluating the model\<close>

text \<open>Rules that run the actions on a given state, and the sample elements in full.\<close>

lemma run_simps:
  "returnM v s = (Inr v, s)" "throwM e s = (Inl e, s)" "gets f s = (Inr (f s), s)"
  "modify g s = (Inr (), g s)"
  by (simp_all add: returnM_def throwM_def gets_def modify_def)

lemmas call_defs = call_proc_def call_bool_def call_template_def call_html_def call_query_def
  call_node_def call_handle_def call_store_def call_val_def call_parsed_def

lemma quiet_simps:
  "handle_ret quiet tr c = length tr" "store_ret quiet tr c = 0"
  "val_ret quiet tr c = (case c of CGetDataFromPath _ _ _ dv \<Rightarrow> dv | _ \<Rightarrow> Prim ''1'')"
  "template_ret quiet tr c = None" "html_ret quiet tr c = 0" "bool_ret quiet tr c = True"
  "query_ret quiet tr c = (case c of CShadowRoot \<Rightarrow> Some (Ext 0) | _ \<Rightarrow> None)"
  "node_ret quiet tr c = Ext (length tr)" "parsed_ret quiet tr c = Many []"
  "throws quiet tr c = None"
  by (simp_all add: quiet_def)

lemma extern_quiet:
  "extern quiet c get wrap s =
     (Inr (get quiet (trace s) c), s\<lparr>trace := trace s @ [Ev c (Ret (wrap (get quiet (trace s) c)))]\<rparr>)"
  by (simp add: extern_def quiet_simps(10) Let_def)

lemmas eval_simps = run_simps extern_quiet call_defs quiet_simps bindM_def thenM_def whenM_def

lemma fresh_eq: "fresh = \<lparr>tagName = ''MY-EL'', dataset_store = None, root = Some Host, events = [],
    rendered = False, stylesheets = None, styles = None, DATA = Obj [],
    subscriptions = [], DEBUG = False, STYLESHEETS = None, trace = []\<rparr>"
  by (simp add: fresh_def constructor_def CustomElement_constructor_def HTMLElement_def eval_simps)

lemma subscribed_twice_eq: "subscribed_twice =
  \<lparr>tagName = ''MY-EL'', dataset_store = None, root = Some Host, events = [],
     rendered = False, stylesheets = None, styles = None, DATA = Prim ''1'',
     subscriptions = [(''user'', 1), (''MYEL'', 5)], DEBUG = False, STYLESHEETS = None,
     trace =
       [Ev (CStore (Some ''app'')) (Ret (RStore 0)),
        Ev (CSubscribe 0 (UpdateData (Some ''user'')) Undefined Undefined
             Undefined (Some ''user''))
         (Ret (RHandle 1)),
        Ev (CData (Some ''app'')) (Ret (RVal (Prim ''1''))),
        Ev (CGetDataFromPath Undefined Undefined Undefined (Prim ''1''))
         (Ret (RVal (Prim ''1''))),
        Ev (CStore (Some ''app'')) (Ret (RStore 0)),
        Ev (CSubscribe 0 (UpdateData None) Undefined Undefined Undefined
             None)
         (Ret (RHandle 5)),
        Ev (CData (Some ''app'')) (Ret (RVal (Prim ''1''))),
        Ev (CGetDataFromPath Undefined Undefined Undefined (Prim ''1''))
         (Ret (RVal (Prim ''1'')))]\<rparr>"
  by (simp add: subscribed_twice_def fresh_eq user_store_def whole_store_def subscribeToStore_def
      unsubscribeFromStore_def populate_def store_data_def put_data_def set_data_def named_def
      sub_key_def Object_prototype_keys_def eval_simps)


lemmas render_defs = render_def buildStylesheets_def append_styles_def selector_def
  root_appendChild_def add_link_def

section \<open>Teardown\<close>

text \<open>What a run that returned normally tells about its steps.\<close>

lemma bindM_Inr:
  "bindM m f s = (Inr v, s') \<longleftrightarrow> (\<exists>u s1. m s = (Inr u, s1) \<and> f u s1 = (Inr v, s'))"
  by (cases "m s"; cases "fst (m s)") (auto simp: bindM_def)

lemma thenM_Inr:
  "thenM m n s = (Inr v, s') \<longleftrightarrow> (\<exists>u s1. m s = (Inr u, s1) \<and> n s1 = (Inr v, s'))"
  by (simp add: thenM_def bindM_Inr)

lemma extern_Inr:
  "extern E c get wrap s = (Inr v, s') \<longleftrightarrow>
     throws E (trace s) c = None \<and> v = get E (trace s) c \<and>
     s' = s\<lparr>trace := trace s @ [Ev c (Ret (wrap v))]\<rparr>"
  by (auto simp: extern_def Let_def split: option.splits)

lemma call_proc_Inr:
  "call_proc E c s = (Inr u, s') \<longleftrightarrow>
     throws E (trace s) c = None \<and> s' = s\<lparr>trace := trace s @ [Ev c (Ret RUnit)]\<rparr>"
  by (auto simp: call_proc_def extern_Inr)


lemma forEach_unsubscribe_Inr:
  "forEach (\<lambda>h. call_proc E (CUnsubscribe h)) hs s = (Inr u, s') \<Longrightarrow>
   s' = s\<lparr>trace := trace s @ map (\<lambda>h. Ev (CUnsubscribe h) (Ret RUnit)) hs\<rparr>"
proof (induction hs arbitrary: s)
  case Nil
  then show ?case by (simp add: returnM_def)
next
  case (Cons h hs)
  from Cons.prems obtain s1 where
    a: "call_proc E (CUnsubscribe h) s = (Inr (), s1)"
    and b: "forEach (\<lambda>h. call_proc E (CUnsubscribe h)) hs s1 = (Inr u, s')"
    by (auto simp: thenM_Inr)
  from a have s1: "s1 = s\<lparr>trace := trace s @ [Ev (CUnsubscribe h) (Ret RUnit)]\<rparr>"
    by (simp add: call_proc_Inr)
  from Cons.IH[OF b] s1 show ?case by simp
qed

lemma set_object_values: "set (object_values ps) = snd ` set ps"
proof -
  have "set ps = {p \<in> set ps. array_index (fst p) \<noteq> None} \<union> {p \<in> set ps. array_index (fst p) = None}"
    by auto
  then have "snd ` set ps =
      snd ` {p \<in> set ps. array_index (fst p) \<noteq> None} \<union> snd ` {p \<in> set ps. array_index (fst p) = None}"
    by (metis image_Un)
  then show ?thesis by (simp add: object_values_def)
qed

lemma forEach_succeeds:
  assumes "\<And>x s. x \<in> set xs \<Longrightarrow> fst (f x s) = Inr ()"
  shows "fst (forEach f xs s) = Inr ()"
  using assms
proof (induction xs arbitrary: s)
  case Nil
  then show ?case by (simp add: returnM_def)
next
  case (Cons x xs)
  have "fst (f x s) = Inr ()" by (rule Cons.prems) simp
  then obtain s1 where "f x s = (Inr (), s1)" by (cases "f x s") simp
  moreover have "fst (forEach f xs s1) = Inr ()"
    by (rule Cons.IH) (simp add: Cons.prems)
  ultimately show ?case by (simp add: thenM_def bindM_def)
qed

lemma call_proc_succeeds: "throws E (trace s) c = None \<Longrightarrow> fst (call_proc E c s) = Inr ()"
  by (simp add: call_proc_def extern_def)

lemma disconnectedCallback_succeeds:
  assumes q: "\<And>tr c. teardown_call c \<Longrightarrow> throws E tr c = None"
  shows "fst (disconnectedCallback E s) = Inr ()"
proof -
  have "fst (forEach (run_off E) (events s) s) = Inr ()"
  proof (rule forEach_succeeds)
    fix x :: off and t :: elem
    show "fst (run_off E x t) = Inr ()"
      by (cases x) (simp add: call_proc_succeeds q)
  qed
  then obtain s1 where s1: "CustomElement_disconnectedCallback E s = (Inr (), s1)"
    by (cases "forEach (run_off E) (events s) s")
       (simp add: CustomElement_disconnectedCallback_def bindM_def gets_def)
  have "fst (forEach (\<lambda>h. call_proc E (CUnsubscribe h)) (object_values (subscriptions s1)) s1) = Inr ()"
    by (rule forEach_succeeds) (simp add: call_proc_succeeds q)
  then have "fst (unsubscribeFromAllStores E s1) = Inr ()"
    by (cases "forEach (\<lambda>h. call_proc E (CUnsubscribe h)) (object_values (subscriptions s1)) s1")
       (simp add: unsubscribeFromAllStores_def thenM_def bindM_def gets_def modify_def)
  with s1 show ?thesis
    by (simp add: disconnectedCallback_def thenM_def bindM_def)
qed

lemma disconnectedCallback_Inr:
  assumes ok: "disconnectedCallback E s = (Inr u, s')"
  shows "\<exists>pre. emitted s s' =
            pre @ map (\<lambda>h. Ev (CUnsubscribe h) (Ret RUnit)) (object_values (subscriptions s))"
    and "subscriptions s' = []"
proof -
  from ok obtain s1 s2 where
    a: "CustomElement_disconnectedCallback E s = (Inr (), s1)"
    and b: "forEach (\<lambda>h. call_proc E (CUnsubscribe h)) (object_values (subscriptions s1)) s1 = (Inr (), s2)"
    and c: "s' = s2\<lparr>subscriptions := []\<rparr>"
    by (auto simp: disconnectedCallback_def unsubscribeFromAllStores_def thenM_Inr bindM_Inr
          gets_def modify_def)
  from tracingD[OF CustomElement_disconnectedCallback_obeys[OF honours_tracing] a]
  obtain pre where s1: "s1 = s\<lparr>trace := trace s @ pre\<rparr>" by blast
  from forEach_unsubscribe_Inr[OF b] s1 c
  have "trace s' = trace s @ pre @ map (\<lambda>h. Ev (CUnsubscribe h) (Ret RUnit)) (object_values (subscriptions s))"
    by simp
  then show "\<exists>pre. emitted s s' =
            pre @ map (\<lambda>h. Ev (CUnsubscribe h) (Ret RUnit)) (object_values (subscriptions s))"
    by (auto simp: emitted_def)
  from c show "subscriptions s' = []" by simp
qed

text \<open>
  Claim C1. When \<open>disconnectedCallback\<close> runs to completion, the \<open>unsubscribe\<close> of the
  handle of every entry of the subscriptions map has been called (and has returned) within
  it, and the map is left empty. It does run to completion whenever no \<open>unsubscribe\<close>
  and no listener removal throws.
\<close>

theorem disconnectedCallback_unsubscribes_all:
  "(fst (disconnectedCallback E s) = Inr () \<longrightarrow>
      (\<forall>h \<in> snd ` set (subscriptions s).
          Ev (CUnsubscribe h) (Ret RUnit) \<in> set (emitted s (snd (disconnectedCallback E s)))) \<and>
      subscriptions (snd (disconnectedCallback E s)) = []) \<and>
   ((\<forall>tr c. teardown_call c \<longrightarrow> throws E tr c = None) \<longrightarrow>
      fst (disconnectedCallback E s) = Inr ())"
proof (intro conjI impI)
  assume "fst (disconnectedCallback E s) = Inr ()"
  then have ok: "disconnectedCallback E s = (Inr (), snd (disconnectedCallback E s))"
    by (cases "disconnectedCallback E s") simp
  from disconnectedCallback_Inr(1)[OF ok] obtain pre where
    "emitted s (snd (disconnectedCallback E s)) =
       pre @ map (\<lambda>h. Ev (CUnsubscribe h) (Ret RUnit)) (object_values (subscriptions s))"
    by blast
  then show "\<forall>h \<in> snd ` set (subscriptions s).
          Ev (CUnsubscribe h) (Ret RUnit) \<in> set (emitted s (snd (disconnectedCallback E s)))"
    by (auto simp: set_object_values)
  from disconnectedCallback_Inr(2)[OF ok]
  show "subscriptions (snd (disconnectedCallback E s)) = []" .
next
  assume "\<forall>tr c. teardown_call c \<longrightarrow> throws E tr c = None"
  then show "fst (disconnectedCallback E s) = Inr ()"
    by (intro disconnectedCallback_succeeds) simp
qed

lemma dc_eval: "disconnectedCallback quiet subscribed_twice =
   (Inr (), subscribed_twice\<lparr>subscriptions := [],
       trace := trace subscribed_twice @ [Ev (CUnsubscribe 1) (Ret RUnit), Ev (CUnsubscribe 5) (Ret RUnit)]\<rparr>)"
  by (simp add: subscribed_twice_eq disconnectedCallback_def CustomElement_disconnectedCallback_def
     unsubscribeFromAllStores_def object_values_def array_index_def index_of_def eval_simps)

theorem disconnectedCallback_unsubscribes_all_witness:
  "fst (disconnectedCallback quiet subscribed_twice) = Inr () \<and>
   Ev (CUnsubscribe 1) (Ret RUnit) \<in> set (emitted subscribed_twice (snd (disconnectedCallback quiet subscribed_twice))) \<and>
   Ev (CUnsubscribe 5) (Ret RUnit) \<in> set (emitted subscribed_twice (snd (disconnectedCallback quiet subscribed_twice))) \<and>
   subscriptions (snd (disconnectedCallback quiet subscribed_twice)) = []"
proof -
  have q: "\<forall>tr c. teardown_call c \<longrightarrow> throws quiet tr c = None"
    by (simp add: quiet_simps)
  have subs: "snd ` set (subscriptions subscribed_twice) = {1, 5}"
    by (simp add: subscribed_twice_eq)
  from disconnectedCallback_unsubscribes_all[of quiet subscribed_twice] q subs
  show ?thesis by simp
qed

section \<open>Unsubscribing a name\<close>

lemma unsubscribeFromStore_absent:
  "map_of (subscriptions s) n = None \<Longrightarrow> n \<notin> set Object_prototype_keys \<Longrightarrow>
   unsubscribeFromStore E n s = (Inr (), s)"
  by (simp add: unsubscribeFromStore_def bindM_def run_simps)

lemma unsubscribeFromStore_inherited:
  "map_of (subscriptions s) n = None \<Longrightarrow> n \<in> set Object_prototype_keys \<Longrightarrow>
   unsubscribeFromStore E n s = (Inl TypeError, s)"
  by (simp add: unsubscribeFromStore_def bindM_def run_simps)

lemma unsubscribeFromStore_present:
  "map_of (subscriptions s) n = Some h \<Longrightarrow>
   unsubscribeFromStore E n s = call_proc E (CUnsubscribe h) s"
  by (simp add: unsubscribeFromStore_def bindM_def run_simps)

text \<open>
  Claim C9. For a name with no entry in the subscriptions map, \<open>unsubscribeFromStore\<close>
  should do nothing. On a new element the name \<open>constructor\<close> has no entry, and the
  call ends with a TypeError: the guard finds \<open>Object.prototype.constructor\<close>.
\<close>

theorem unsubscribeFromStore_constructor_key:
  "map_of (subscriptions fresh) ''constructor'' = None \<and>
   unsubscribeFromStore quiet ''constructor'' fresh = (Inl TypeError, fresh)"
  by (simp add: fresh_eq unsubscribeFromStore_def Object_prototype_keys_def eval_simps)

section \<open>Errors\<close>

text \<open>
  Claim C7. Every public operation propagates errors: when an external call throws, the
  operation ends at once with that very error, and an operation that ends in any other
  way has seen no external call throw.
\<close>

theorem errors_propagate_unchanged:
  "obeys propagating (subscribeToStore E d r) \<and>
   obeys propagating (setStore E st) \<and>
   obeys propagating (unsubscribeFromStore E n) \<and>
   obeys propagating (unsubscribeFromAllStores E) \<and>
   obeys propagating (updateData E name v) \<and>
   obeys propagating (render E) \<and>
   obeys propagating (constructor E ps) \<and>
   obeys propagating (connectedCallback E) \<and>
   obeys propagating (disconnectedCallback E) \<and>
   obeys propagating (attributeChangedCallback E attr) \<and>
   obeys propagating (on E ev elm fn) \<and>
   obeys propagating (run_callback E cb)"
proof -
  note h = honours_propagating
  note f = frame_free_propagating
  note d = frame_free_data_free[OF f]
  note sf = frame_free_subs_free[OF f]
  have hc: "honours propagating C" for C
    by (rule honours_mono[OF h]) simp
  show ?thesis
    by (intro conjI subscribeToStore_obeys[OF h _ _ d sf] setStore_obeys[OF h _ _ d sf]
          unsubscribeFromStore_obeys[OF hc] unsubscribeFromAllStores_obeys[OF hc sf]
          updateData_obeys[OF hc d] render_obeys[OF hc] constructor_obeys[OF h f]
          connectedCallback_obeys[OF hc] disconnectedCallback_obeys[OF hc sf]
          attributeChangedCallback_obeys[OF h _ _ d sf] on_obeys[OF h f]
          run_callback_obeys[OF h f]; simp)
qed

lemma subscribe_fails_eval:
  "subscribeToStore subscribe_fails user_store False fresh =
   (Inl (Thrown ''store is closed''),
    fresh\<lparr>trace :=
       [Ev (CStore (Some ''app'')) (Ret (RStore 0)),
        Ev (CSubscribe 0 (UpdateData (Some ''user'')) Undefined Undefined
             Undefined (Some ''user''))
         (Threw ''store is closed'')]\<rparr>)"
  by (simp add: fresh_eq user_store_def subscribeToStore_def unsubscribeFromStore_def
      sub_key_def named_def Object_prototype_keys_def subscribe_fails_def quiet_def
      extern_def call_defs bindM_def thenM_def run_simps)

theorem errors_propagate_unchanged_witness:
  "propagating fresh (Some (Thrown ''store is closed''))
     (snd (subscribeToStore subscribe_fails user_store False fresh)) \<and>
   fst (subscribeToStore subscribe_fails user_store False fresh) = Inl (Thrown ''store is closed'')"
proof -
  have "obeys propagating (subscribeToStore subscribe_fails user_store False)"
    using errors_propagate_unchanged[of subscribe_fails user_store False] by blast
  from obeysD[OF this, of fresh] show ?thesis
    by (simp add: subscribe_fails_eval failure_def)
qed

section \<open>The update callback\<close>





lemma subscribeToStore_rejects_inherited:
  assumes "d_name d = Some n" and "n \<in> set Object_prototype_keys"
    and "map_of (subscriptions s) n = None"
  shows "subscribeToStore E d r s = (Inl TypeError, s)"
proof -
  from assms(2) have "n \<noteq> []" by (auto simp: Object_prototype_keys_def)
  with assms(1) have k: "sub_key (tagName s) (d_name d) = n"
    by (simp add: sub_key_def named_def)
  show ?thesis
    by (simp add: subscribeToStore_def bindM_def thenM_def run_simps k
          unsubscribeFromStore_inherited[OF assms(3) assms(2)])
qed

lemma proto_key: "''__proto__'' \<in> set Object_prototype_keys"
  by (simp add: Object_prototype_keys_def)




lemma updateData_eval:
  "updateData quiet (Some ''user'') (Prim ''7'') fresh =
   (Inr (), fresh\<lparr>DATA := Obj [(''user'', Prim ''7'')],
     trace :=
       [Ev (CHook BeforeUpdate (Obj [])) (Ret RUnit),
        Ev (CPreRenderCheck (Obj [(''user'', Prim ''7'')])) (Ret (RBool True)),
        Ev (CHook BeforeRender (Obj [(''user'', Prim ''7'')])) (Ret RUnit),
        Ev (CTemplate (Obj [(''user'', Prim ''7'')])) (Ret (RTpl None)),
        Ev CHtml (Ret (RTpl (Some 0))),
        Ev (CRenderTemplate 0 (Some Host)) (Ret RUnit),
        Ev (CSetTimeout PostRender (Some 200)) (Ret RUnit)]\<rparr>)"
  by (simp add: fresh_eq updateData_def store_data_def put_data_def named_def render_defs eval_simps)



section \<open>Rendering\<close>

lemma call_Inr:
  "call_bool E c s = (Inr b, s') \<longleftrightarrow>
     throws E (trace s) c = None \<and> b = bool_ret E (trace s) c \<and>
     s' = s\<lparr>trace := trace s @ [Ev c (Ret (RBool b))]\<rparr>"
  "call_template E c s = (Inr t, s') \<longleftrightarrow>
     throws E (trace s) c = None \<and> t = template_ret E (trace s) c \<and>
     s' = s\<lparr>trace := trace s @ [Ev c (Ret (RTpl t))]\<rparr>"
  "call_html E c s = (Inr e, s') \<longleftrightarrow>
     throws E (trace s) c = None \<and> e = html_ret E (trace s) c \<and>
     s' = s\<lparr>trace := trace s @ [Ev c (Ret (RTpl (Some e)))]\<rparr>"
  "call_store E c s = (Inr st, s') \<longleftrightarrow>
     throws E (trace s) c = None \<and> st = store_ret E (trace s) c \<and>
     s' = s\<lparr>trace := trace s @ [Ev c (Ret (RStore st))]\<rparr>"
  "call_handle E c s = (Inr h, s') \<longleftrightarrow>
     throws E (trace s) c = None \<and> h = handle_ret E (trace s) c \<and>
     s' = s\<lparr>trace := trace s @ [Ev c (Ret (RHandle h))]\<rparr>"
  "call_val E c s = (Inr v, s') \<longleftrightarrow>
     throws E (trace s) c = None \<and> v = val_ret E (trace s) c \<and>
     s' = s\<lparr>trace := trace s @ [Ev c (Ret (RVal v))]\<rparr>"
  by (auto simp: call_defs extern_Inr)

lemma buildStylesheets_none:
  "stylesheets s = None \<Longrightarrow> buildStylesheets E s = (Inr (), s)"
  by (simp add: buildStylesheets_def bindM_def run_simps)

lemma append_styles_none:
  "styles s = None \<Longrightarrow> append_styles E s = (Inr (), s)"
  by (simp add: append_styles_def bindM_def run_simps)

lemma trace_update_eq: "s\<lparr>trace := trace s @ xs\<rparr> = s \<Longrightarrow> xs = []"
proof -
  assume "s\<lparr>trace := trace s @ xs\<rparr> = s"
  then have "trace (s\<lparr>trace := trace s @ xs\<rparr>) = trace s" by simp
  then show "xs = []" by simp
qed

lemma style_steps:
  assumes a: "buildStylesheets E s = (Inr u, s1)" and b: "append_styles E s1 = (Inr w, s2)"
  shows "\<exists>sty. s2 = s\<lparr>trace := trace s @ sty\<rparr> \<and> list_all (on_call style_call) sty \<and>
           (stylesheets s = None \<and> styles s = None \<longrightarrow> sty = [])"
proof -
  from tracingD[OF buildStylesheets_obeys[OF honours_tracing] a]
  obtain n1 where n1: "s1 = s\<lparr>trace := trace s @ n1\<rparr>" "list_all (on_call style_call) n1" by blast
  from tracingD[OF append_styles_obeys[OF honours_tracing] b]
  obtain n2 where n2: "s2 = s1\<lparr>trace := trace s1 @ n2\<rparr>" "list_all (on_call style_call) n2" by blast
  have "n1 @ n2 = []" if none: "stylesheets s = None" "styles s = None"
  proof -
    from a buildStylesheets_none[OF none(1), of E] have "s1 = s" by simp
    with n1 have e1: "n1 = []" by (metis trace_update_eq)
    from b append_styles_none[of s E] none(2) \<open>s1 = s\<close> have "s2 = s1" by simp
    with n2 have "n2 = []" by (metis trace_update_eq)
    with e1 show ?thesis by simp
  qed
  with n1 n2 show ?thesis
    by (intro exI[of _ "n1 @ n2"]) simp
qed

lemma render_Inr:
  assumes "render E s = (Inr res, s')"
  shows "(res = Some [] \<and>
          s' = s\<lparr>trace := trace s @ [Ev (CPreRenderCheck (DATA s)) (Ret (RBool False))]\<rparr>) \<or>
         (res = None \<and> (\<exists>t e sty.
            s' = s\<lparr>trace := trace s @
                  [Ev (CPreRenderCheck (DATA s)) (Ret (RBool True)),
                   Ev (CHook BeforeRender (DATA s)) (Ret RUnit),
                   Ev (CTemplate (DATA s)) (Ret (RTpl t))] @
                  (case t of None \<Rightarrow> [Ev CHtml (Ret (RTpl (Some e)))] | Some x \<Rightarrow> []) @
                  [Ev (CRenderTemplate (case t of None \<Rightarrow> e | Some x \<Rightarrow> x) (root s)) (Ret RUnit)] @
                  sty @ [Ev (CSetTimeout PostRender (Some 200)) (Ret RUnit)]\<rparr> \<and>
            list_all (on_call style_call) sty \<and>
            (stylesheets s = None \<and> styles s = None \<longrightarrow> sty = [])))"
proof -
  let ?body = "\<lambda>ok. if \<not> ok then returnM (Some [])
       else
         thenM (bindM (gets DATA) (\<lambda>d. call_proc E (CHook BeforeRender d)))
        (bindM (bindM (gets DATA) (\<lambda>d. call_template E (CTemplate d))) (\<lambda>t.
         bindM (case t of None \<Rightarrow> call_html E CHtml | Some x \<Rightarrow> returnM x) (\<lambda>tp.
         thenM (bindM (gets root) (\<lambda>r. call_proc E (CRenderTemplate tp r)))
        (thenM (buildStylesheets E)
        (thenM (append_styles E)
        (thenM (call_proc E (CSetTimeout PostRender (Some 200)))
               (returnM None)))))))"
  from assms obtain ok s1 where
    a: "call_bool E (CPreRenderCheck (DATA s)) s = (Inr ok, s1)" and b: "?body ok s1 = (Inr res, s')"
    unfolding render_def by (auto simp: bindM_Inr run_simps)
  from a have s1: "s1 = s\<lparr>trace := trace s @ [Ev (CPreRenderCheck (DATA s)) (Ret (RBool ok))]\<rparr>"
    by (simp add: call_Inr)
  show ?thesis
  proof (cases ok)
    case False
    with b s1 show ?thesis by (simp add: run_simps)
  next
    case True
    with b obtain s2 t s3 tp s4 s5 s6 s7 where
      c: "call_proc E (CHook BeforeRender (DATA s1)) s1 = (Inr (), s2)"
      and d: "call_template E (CTemplate (DATA s2)) s2 = (Inr t, s3)"
      and e: "(case t of None \<Rightarrow> call_html E CHtml | Some x \<Rightarrow> returnM x) s3 = (Inr tp, s4)"
      and f: "call_proc E (CRenderTemplate tp (root s4)) s4 = (Inr (), s5)"
      and g: "buildStylesheets E s5 = (Inr (), s6)"
      and h: "append_styles E s6 = (Inr (), s7)"
      and i: "call_proc E (CSetTimeout PostRender (Some 200)) s7 = (Inr (), s')"
      and r: "res = None"
      by (auto simp: bindM_Inr thenM_Inr run_simps)
    from style_steps[OF g h] obtain sty where
      sty: "s7 = s5\<lparr>trace := trace s5 @ sty\<rparr>" "list_all (on_call style_call) sty"
        "stylesheets s5 = None \<and> styles s5 = None \<longrightarrow> sty = []" by blast
    from c have s2: "s2 = s1\<lparr>trace := trace s1 @ [Ev (CHook BeforeRender (DATA s1)) (Ret RUnit)]\<rparr>"
      by (simp add: call_proc_Inr)
    from d have s3: "s3 = s2\<lparr>trace := trace s2 @ [Ev (CTemplate (DATA s2)) (Ret (RTpl t))]\<rparr>"
      by (simp add: call_Inr)
    from e obtain e' where s4: "s4 = s3\<lparr>trace := trace s3 @
          (case t of None \<Rightarrow> [Ev CHtml (Ret (RTpl (Some e')))] | Some x \<Rightarrow> [])\<rparr>"
      and tp: "tp = (case t of None \<Rightarrow> e' | Some x \<Rightarrow> x)"
      by (cases t) (auto simp: call_Inr run_simps)
    from f have s5: "s5 = s4\<lparr>trace := trace s4 @ [Ev (CRenderTemplate tp (root s4)) (Ret RUnit)]\<rparr>"
      by (simp add: call_proc_Inr)
    from i have s': "s' = s7\<lparr>trace := trace s7 @ [Ev (CSetTimeout PostRender (Some 200)) (Ret RUnit)]\<rparr>"
      by (simp add: call_proc_Inr)
    have "s' = s\<lparr>trace := trace s @
                  [Ev (CPreRenderCheck (DATA s)) (Ret (RBool True)),
                   Ev (CHook BeforeRender (DATA s)) (Ret RUnit),
                   Ev (CTemplate (DATA s)) (Ret (RTpl t))] @
                  (case t of None \<Rightarrow> [Ev CHtml (Ret (RTpl (Some e')))] | Some x \<Rightarrow> []) @
                  [Ev (CRenderTemplate (case t of None \<Rightarrow> e' | Some x \<Rightarrow> x) (root s)) (Ret RUnit)] @
                  sty @ [Ev (CSetTimeout PostRender (Some 200)) (Ret RUnit)]\<rparr>"
      using s1 s2 s3 s4 s5 sty(1) s' tp True by simp
    moreover have "stylesheets s = None \<and> styles s = None \<longrightarrow> sty = []"
      using sty(3) s1 s2 s3 s4 s5 by simp
    ultimately show ?thesis using r sty(2) by blast
  qed
qed




lemma fresh_fields:
  "DATA fresh = Obj []" "subscriptions fresh = []" "rendered fresh = False"
  "root fresh = Some Host" "stylesheets fresh = None" "styles fresh = None"
  "tagName fresh = ''MY-EL''" "trace fresh = []"
  by (simp_all add: fresh_eq)





section \<open>The state of an element\<close>








section \<open>When the render happens\<close>

lemma maps_tracing_emitted:
  assumes "obeys (maps_tracing C) m"
  shows "list_all (on_call C) (emitted s (snd (m s)))"
proof -
  from obeysD[OF assms, of s] obtain new where
    "trace (snd (m s)) = trace s @ new" "list_all (on_call C) new"
    by (auto simp: maps_tracing_def)
  then show ?thesis by (simp add: emitted_def)
qed

lemma store_data_frame:
  assumes "store_data name v s = (r, s')"
  shows "root s' = root s \<and> trace s' = trace s"
proof -
  have h: "honours (data_tracing (\<lambda>_. False)) (\<lambda>_. False)" by (rule honours_data_tracing)
  from data_tracingD[OF store_data_obeys[OF h data_free_data_tracing] assms]
  obtain new w where "s' = s\<lparr>DATA := w, trace := trace s @ new\<rparr>" "list_all (on_call (\<lambda>_. False)) new"
    by blast
  moreover from this(2) have "new = []" by (cases new) (auto simp: on_call_def split: event.splits)
  ultimately show ?thesis by simp
qed

lemma updateData_renders:
  assumes ok: "updateData E name v s = (Inr u, s')"
  shows "(\<exists>tp. Ev (CRenderTemplate tp (root s)) (Ret RUnit) \<in> set (emitted s s')) \<or>
         (\<exists>dv. Ev (CPreRenderCheck dv) (Ret (RBool False)) \<in> set (emitted s s'))"
proof -
  let ?dbg = "bindM (gets DEBUG) (\<lambda>dbg.
              whenM dbg (call_proc E (CSetTimeout DebugLog (Some 1100))))"
  from ok obtain s1 s2 res s3 where
    a: "call_proc E (CHook BeforeUpdate (DATA s)) s = (Inr (), s1)"
    and b: "store_data name v s1 = (Inr (), s2)"
    and c: "render E s2 = (Inr res, s3)"
    and d: "?dbg s3 = (Inr u, s')"
    by (auto simp: updateData_def thenM_Inr bindM_Inr run_simps)
  from a have s1: "s1 = s\<lparr>trace := trace s @ [Ev (CHook BeforeUpdate (DATA s)) (Ret RUnit)]\<rparr>"
    by (simp add: call_proc_Inr)
  from store_data_frame[OF b] s1 have s2: "root s2 = root s"
    "trace s2 = trace s @ [Ev (CHook BeforeUpdate (DATA s)) (Ret RUnit)]" by simp_all
  have h: "honours (tracing update_call) update_call" by (rule honours_tracing)
  note cmp = honours_composable[OF h]
  have "obeys (tracing update_call) ?dbg"
    by (intro obeys_bindM[OF cmp] obeys_gets[OF cmp] obeys_whenM[OF cmp] obeys_calls[OF h]; simp)
  from tracingD[OF this d] obtain post where s': "s' = s3\<lparr>trace := trace s3 @ post\<rparr>" by blast
  from render_Inr[OF c] obtain rnew where s3: "trace s3 = trace s2 @ rnew"
    and r: "(\<exists>tp. Ev (CRenderTemplate tp (root s2)) (Ret RUnit) \<in> set rnew) \<or>
            (\<exists>dv. Ev (CPreRenderCheck dv) (Ret (RBool False)) \<in> set rnew)"
    by (elim disjE conjE exE) (simp, force)
  from s' s3 s2 have "emitted s s' = Ev (CHook BeforeUpdate (DATA s)) (Ret RUnit) # rnew @ post"
    by (simp add: emitted_def)
  with r s2(1) show ?thesis by auto
qed

lemma attributeChangedCallback_Inr:
  assumes ok: "attributeChangedCallback E ''data-store'' s = (Inr u, s')"
  shows "\<exists>pre. emitted s s' = pre @ [Ev (CSetTimeout RenderBound None) (Ret RUnit)]"
proof -
  from ok obtain s1 where a: "setStore E None s = (Inr (), s1)"
    and b: "call_proc E (CSetTimeout RenderBound None) s1 = (Inr (), s')"
    by (auto simp: attributeChangedCallback_def thenM_Inr)
  have h: "honours (maps_tracing store_call) store_call" by (rule honours_maps_tracing)
  have "obeys (maps_tracing store_call) (setStore E None)"
    by (rule setStore_obeys[OF h _ _ data_free_maps_tracing subs_free_maps_tracing])
       (simp_all add: named_def)
  from obeysD[OF this, of s] a obtain pre where "trace s1 = trace s @ pre"
    by (auto simp: maps_tracing_def)
  with b have "trace s' = trace s @ pre @ [Ev (CSetTimeout RenderBound None) (Ret RUnit)]"
    by (simp add: call_proc_Inr)
  then show ?thesis by (auto simp: emitted_def)
qed

lemma attributeChangedCallback_calls:
  "list_all (on_call attribute_call) (emitted s (snd (attributeChangedCallback E attr s)))"
proof -
  have h: "honours (maps_tracing attribute_call) attribute_call" by (rule honours_maps_tracing)
  have "obeys (maps_tracing attribute_call) (attributeChangedCallback E attr)"
    by (rule attributeChangedCallback_obeys[OF h _ _ data_free_maps_tracing subs_free_maps_tracing])
       (simp_all add: attribute_call_def)
  then show ?thesis by (rule maps_tracing_emitted)
qed

lemma updateData_calls:
  "list_all (on_call update_call) (emitted s (snd (updateData E name v s)))"
proof -
  have h: "honours (maps_tracing update_call) update_call" by (rule honours_maps_tracing)
  have "obeys (maps_tracing update_call) (updateData E name v)"
    by (rule updateData_obeys[OF h data_free_maps_tracing])
  then show ?thesis by (rule maps_tracing_emitted)
qed

text \<open>
  Claim C2, as the code has it. \<open>attributeChangedCallback\<close> never calls the renderer, and
  for \<open>data-store\<close> its last call, when it returns, enqueues the render with
  \<open>setTimeout\<close>. The update callback of a store never enqueues a render: when it returns,
  it has called the renderer itself on the element's root (unless the pre-render check
  answered false).
\<close>

theorem render_deferred_for_attribute_immediate_for_store:
  "(\<forall>tp r out. Ev (CRenderTemplate tp r) out \<notin> set (emitted s (snd (attributeChangedCallback E attr s)))) \<and>
   (fst (attributeChangedCallback E ''data-store'' s) = Inr () \<longrightarrow>
      (\<exists>pre. emitted s (snd (attributeChangedCallback E ''data-store'' s)) =
               pre @ [Ev (CSetTimeout RenderBound None) (Ret RUnit)])) \<and>
   (\<forall>delay out. Ev (CSetTimeout RenderBound delay) out \<notin> set (emitted s (snd (updateData E name v s)))) \<and>
   (fst (updateData E name v s) = Inr () \<longrightarrow>
      (\<exists>tp. Ev (CRenderTemplate tp (root s)) (Ret RUnit) \<in> set (emitted s (snd (updateData E name v s)))) \<or>
      (\<exists>dv. Ev (CPreRenderCheck dv) (Ret (RBool False)) \<in> set (emitted s (snd (updateData E name v s)))))"
proof (intro conjI impI allI)
  fix tp r out
  from attributeChangedCallback_calls[of s E attr]
  show "Ev (CRenderTemplate tp r) out \<notin> set (emitted s (snd (attributeChangedCallback E attr s)))"
    by (auto simp: list_all_iff on_call_def attribute_call_def)
next
  assume "fst (attributeChangedCallback E ''data-store'' s) = Inr ()"
  then have "attributeChangedCallback E ''data-store'' s =
      (Inr (), snd (attributeChangedCallback E ''data-store'' s))"
    by (cases "attributeChangedCallback E ''data-store'' s") simp
  then show "\<exists>pre. emitted s (snd (attributeChangedCallback E ''data-store'' s)) =
               pre @ [Ev (CSetTimeout RenderBound None) (Ret RUnit)]"
    by (rule attributeChangedCallback_Inr)
next
  fix delay out
  from updateData_calls[of s E name v]
  show "Ev (CSetTimeout RenderBound delay) out \<notin> set (emitted s (snd (updateData E name v s)))"
    by (auto simp: list_all_iff on_call_def)
next
  assume "fst (updateData E name v s) = Inr ()"
  then have "updateData E name v s = (Inr (), snd (updateData E name v s))"
    by (cases "updateData E name v s") simp
  then show "(\<exists>tp. Ev (CRenderTemplate tp (root s)) (Ret RUnit) \<in> set (emitted s (snd (updateData E name v s)))) \<or>
      (\<exists>dv. Ev (CPreRenderCheck dv) (Ret (RBool False)) \<in> set (emitted s (snd (updateData E name v s))))"
    by (rule updateData_renders)
qed

section \<open>Subscribing\<close>

lemma extern_run:
  "extern E c get wrap s =
     (case throws E (trace s) c of
        None \<Rightarrow> (Inr (get E (trace s) c), s\<lparr>trace := trace s @ [Ev c (Ret (wrap (get E (trace s) c)))]\<rparr>)
      | Some x \<Rightarrow> (Inl (Thrown x), s\<lparr>trace := trace s @ [Ev c (Threw x)]\<rparr>))"
  by (simp add: extern_def Let_def split: option.splits)

lemma subscribe_steps:
  assumes "bindM (call_store E c1) (\<lambda>st. bindM (call_handle E (c2 st))
             (\<lambda>h. thenM (modify (f h)) m)) s1 = (res, s')"
  shows "(\<exists>x. res = Inl (Thrown x) \<and> s' = s1\<lparr>trace := trace s1 @ [Ev c1 (Threw x)]\<rparr>) \<or>
         (\<exists>st x. res = Inl (Thrown x) \<and>
            s' = s1\<lparr>trace := trace s1 @ [Ev c1 (Ret (RStore st)), Ev (c2 st) (Threw x)]\<rparr>) \<or>
         (\<exists>st h. m (f h (s1\<lparr>trace := trace s1 @
                     [Ev c1 (Ret (RStore st)), Ev (c2 st) (Ret (RHandle h))]\<rparr>)) = (res, s'))"
  using assms
  by (auto simp: bindM_def thenM_def run_simps call_defs extern_run split: option.splits)

lemma subscribeToStore_run:
  assumes run: "subscribeToStore E d r s = (res, s')"
  shows "(\<exists>e new. res = Inl e \<and> s' = s\<lparr>trace := trace s @ new\<rparr> \<and>
            list_all (\<lambda>ev. subscribe_result ev = None) new \<and>
            (\<forall>h0. map_of (subscriptions s) (sub_key (tagName s) (d_name d)) = Some h0 \<longrightarrow>
                  (\<exists>out rest. new = Ev (CUnsubscribe h0) out # rest))) \<or>
         (\<exists>st h. populate E d r (subscribed s d st h) = (res, s'))"
proof -
  let ?key = "sub_key (tagName s) (d_name d)"
  let ?c2 = "\<lambda>st. CSubscribe st (UpdateData (d_name d)) (d_storePath d) (d_just d) (d_not d) (d_name d)"
  let ?f = "\<lambda>h s. s\<lparr>subscriptions := AList.update ?key h (subscriptions s)\<rparr>"
  let ?after = "bindM (call_store E (CStore (d_store d))) (\<lambda>st. bindM (call_handle E (?c2 st))
             (\<lambda>h. thenM (modify (?f h)) (populate E d r)))"
  have unf: "subscribeToStore E d r s = thenM (unsubscribeFromStore E ?key) ?after s"
    by (simp add: subscribeToStore_def bindM_def run_simps)
  have after: ?thesis
    if s1: "s1 = s\<lparr>trace := trace s @ pre\<rparr>" and run1: "?after s1 = (res, s')"
      and pre: "pre = (case map_of (subscriptions s) ?key of None \<Rightarrow> []
                      | Some h0 \<Rightarrow> [Ev (CUnsubscribe h0) (Ret RUnit)])"
    for s1 pre
  proof -
    from subscribe_steps[OF run1]
    consider x where "res = Inl (Thrown x)"
        "s' = s1\<lparr>trace := trace s1 @ [Ev (CStore (d_store d)) (Threw x)]\<rparr>"
      | st x where "res = Inl (Thrown x)"
        "s' = s1\<lparr>trace := trace s1 @ [Ev (CStore (d_store d)) (Ret (RStore st)), Ev (?c2 st) (Threw x)]\<rparr>"
      | st h where "populate E d r (?f h (s1\<lparr>trace := trace s1 @
                     [Ev (CStore (d_store d)) (Ret (RStore st)), Ev (?c2 st) (Ret (RHandle h))]\<rparr>)) = (res, s')"
      by blast
    then show ?thesis
    proof cases
      case 1
      with s1 pre show ?thesis
        by (intro disjI1 exI[of _ "Thrown x"] exI[of _ "pre @ [Ev (CStore (d_store d)) (Threw x)]"])
           (auto split: option.splits)
    next
      case 2
      with s1 pre show ?thesis
        by (intro disjI1 exI[of _ "Thrown x"]
              exI[of _ "pre @ [Ev (CStore (d_store d)) (Ret (RStore st)), Ev (?c2 st) (Threw x)]"])
           (auto split: option.splits)
    next
      case 3
      have "?f h (s1\<lparr>trace := trace s1 @
                     [Ev (CStore (d_store d)) (Ret (RStore st)), Ev (?c2 st) (Ret (RHandle h))]\<rparr>)
            = subscribed s d st h"
        using s1 pre by (simp add: subscribed_def)
      with 3 show ?thesis by auto
    qed
  qed
  show ?thesis
  proof (cases "map_of (subscriptions s) ?key")
    case None
    show ?thesis
    proof (cases "?key \<in> set Object_prototype_keys")
      case True
      from run unf unsubscribeFromStore_inherited[OF None True, of E]
      have "res = Inl TypeError" "s' = s" by (simp_all add: thenM_def bindM_def)
      with None show ?thesis
        by (intro disjI1 exI[of _ TypeError] exI[of _ "[]"]) simp
    next
      case False
      from run unf unsubscribeFromStore_absent[OF None False, of E]
      have "?after s = (res, s')" by (simp add: thenM_def bindM_def)
      then show ?thesis
        by (intro after[of s "[]"]) (simp_all add: None)
    qed
  next
    case (Some h0)
    note present = unsubscribeFromStore_present[OF Some, of E]
    show ?thesis
    proof (cases "throws E (trace s) (CUnsubscribe h0)")
      case None
      with run unf present
      have "?after (s\<lparr>trace := trace s @ [Ev (CUnsubscribe h0) (Ret RUnit)]\<rparr>) = (res, s')"
        by (simp add: thenM_def bindM_def call_defs extern_run)
      then show ?thesis
        by (intro after[of _ "[Ev (CUnsubscribe h0) (Ret RUnit)]"]) (simp_all add: Some)
    next
      case (Some x)
      with run unf present
      have "res = Inl (Thrown x)" "s' = s\<lparr>trace := trace s @ [Ev (CUnsubscribe h0) (Threw x)]\<rparr>"
        by (simp_all add: thenM_def bindM_def call_defs extern_run)
      with \<open>map_of (subscriptions s) ?key = Some h0\<close> show ?thesis
        by (intro disjI1 exI[of _ "Thrown x"] exI[of _ "[Ev (CUnsubscribe h0) (Threw x)]"]) simp
    qed
  qed
qed




lemma populate_frame:
  assumes "populate E d r s = (res, s')"
  shows "\<exists>new w. s' = s\<lparr>DATA := w, trace := trace s @ new\<rparr> \<and>
           list_all (\<lambda>ev. subscribe_result ev = None) new"
proof -
  have h: "honours (data_tracing (\<lambda>c. data_call c \<or> render_call c)) (\<lambda>c. data_call c \<or> render_call c)"
    by (rule honours_data_tracing)
  have "obeys (data_tracing (\<lambda>c. data_call c \<or> render_call c)) (populate E d r)"
    by (rule populate_obeys[OF h _ _ data_free_data_tracing]) simp_all
  from data_tracingD[OF this assms] obtain new w where
    a: "s' = s\<lparr>DATA := w, trace := trace s @ new\<rparr>"
    and b: "list_all (on_call (\<lambda>c. data_call c \<or> render_call c)) new" by blast
  have "subscribe_result ev = None" if "on_call (\<lambda>c. data_call c \<or> render_call c) ev" for ev
    using that by (cases ev rule: subscribe_result.cases) (auto simp: on_call_def)
  with b have "list_all (\<lambda>ev. subscribe_result ev = None) new"
    by (auto simp: list_all_iff)
  with a show ?thesis by blast
qed

text \<open>
  Claim C8, as the code has it: the key is the name, or the tag name without its first
  hyphen. When the key has an entry, the first call \<open>subscribeToStore\<close> makes is the
  \<open>unsubscribe\<close> of the stored handle; the subscriptions change only after that call has
  returned, and then to hold the handle the store's \<open>subscribe\<close> returned under that key.
\<close>

theorem subscribeToStore_unsubscribes_previous:
  assumes "map_of (subscriptions s) (sub_key (tagName s) (d_name d)) = Some h0"
  shows "\<exists>out rest.
           emitted s (snd (subscribeToStore E d r s)) = Ev (CUnsubscribe h0) out # rest \<and>
           (subscriptions (snd (subscribeToStore E d r s)) = subscriptions s \<or>
            out = Ret RUnit \<and>
            (\<exists>st h more.
               rest = Ev (CStore (d_store d)) (Ret (RStore st)) #
                      Ev (CSubscribe st (UpdateData (d_name d)) (d_storePath d) (d_just d) (d_not d)
                           (d_name d)) (Ret (RHandle h)) # more \<and>
               subscriptions (snd (subscribeToStore E d r s)) =
                 AList.update (sub_key (tagName s) (d_name d)) h (subscriptions s)))"
proof -
  obtain res s' where run: "subscribeToStore E d r s = (res, s')"
    by (cases "subscribeToStore E d r s")
  from subscribeToStore_run[OF run]
  consider new where "s' = s\<lparr>trace := trace s @ new\<rparr>"
      "\<forall>h0. map_of (subscriptions s) (sub_key (tagName s) (d_name d)) = Some h0 \<longrightarrow>
                  (\<exists>out rest. new = Ev (CUnsubscribe h0) out # rest)"
    | st h where "populate E d r (subscribed s d st h) = (res, s')"
    by blast
  then show ?thesis
  proof cases
    case 1
    from 1(2) assms obtain out rest where "new = Ev (CUnsubscribe h0) out # rest" by blast
    with 1(1) run show ?thesis by (simp add: emitted_def)
  next
    case 2
    from populate_frame[OF 2] obtain new w where
      s': "s' = (subscribed s d st h)\<lparr>DATA := w, trace := trace (subscribed s d st h) @ new\<rparr>"
      by blast
    have "emitted s s' = Ev (CUnsubscribe h0) (Ret RUnit) #
            Ev (CStore (d_store d)) (Ret (RStore st)) #
            Ev (CSubscribe st (UpdateData (d_name d)) (d_storePath d) (d_just d) (d_not d)
                 (d_name d)) (Ret (RHandle h)) # new"
      by (subst s') (simp add: subscribed_def emitted_def assms)
    moreover have "subscriptions s' = AList.update (sub_key (tagName s) (d_name d)) h (subscriptions s)"
      by (subst s') (simp add: subscribed_def)
    ultimately show ?thesis using run by simp
  qed
qed

section \<open>The bookkeeping invariant\<close>












section \<open>Runs on the sample elements\<close>

lemma one_store_simps:
  "throws one_store tr c = None" "handle_ret one_store tr c = length tr"
  "store_ret one_store tr c = 0"
  "val_ret one_store tr c = (case c of CGetDataFromPath _ _ _ dv \<Rightarrow> dv | _ \<Rightarrow> Prim ''1'')"
  "parsed_ret one_store tr c = One user_store"
  by (simp_all add: one_store_def quiet_def)

lemma extern_one_store:
  "extern one_store c get wrap s =
     (Inr (get one_store (trace s) c),
      s\<lparr>trace := trace s @ [Ev c (Ret (wrap (get one_store (trace s) c)))]\<rparr>)"
  by (simp add: extern_run one_store_simps)

lemmas subscribe_defs = subscribeToStore_def unsubscribeFromStore_def populate_def store_data_def
  put_data_def set_data_def named_def sub_key_def Object_prototype_keys_def



lemma tag_named_eq:
  "tag_named = fresh\<lparr>DATA := Obj [(''MY-EL'', Prim ''1'')], subscriptions := [(''MY-EL'', 1)],
     trace :=
       [Ev (CStore (Some ''app'')) (Ret (RStore 0)),
        Ev (CSubscribe 0 (UpdateData (Some ''MY-EL'')) Undefined Undefined Undefined (Some ''MY-EL''))
           (Ret (RHandle 1)),
        Ev (CData (Some ''app'')) (Ret (RVal (Prim ''1''))),
        Ev (CGetDataFromPath Undefined Undefined Undefined (Prim ''1'')) (Ret (RVal (Prim ''1'')))]\<rparr>"
  by (simp add: tag_named_def fresh_eq tag_store_def subscribe_defs eval_simps)

lemma subscribe_whole_tag_named_eval:
  "subscribeToStore quiet whole_store False tag_named =
   (Inr (), tag_named\<lparr>DATA := Prim ''1'', subscriptions := [(''MY-EL'', 1), (''MYEL'', 5)],
     trace := trace tag_named @
       [Ev (CStore (Some ''app'')) (Ret (RStore 0)),
        Ev (CSubscribe 0 (UpdateData None) Undefined Undefined Undefined None) (Ret (RHandle 5)),
        Ev (CData (Some ''app'')) (Ret (RVal (Prim ''1''))),
        Ev (CGetDataFromPath Undefined Undefined Undefined (Prim ''1'')) (Ret (RVal (Prim ''1'')))]\<rparr>)"
  by (simp add: tag_named_eq fresh_eq whole_store_def subscribe_defs eval_simps)

lemma subscribe_whole_again_eval:
  "subscribeToStore quiet whole_store False subscribed_twice =
   (Inr (), subscribed_twice\<lparr>subscriptions := [(''user'', 1), (''MYEL'', 10)],
     trace := trace subscribed_twice @
       [Ev (CUnsubscribe 5) (Ret RUnit),
        Ev (CStore (Some ''app'')) (Ret (RStore 0)),
        Ev (CSubscribe 0 (UpdateData None) Undefined Undefined Undefined None) (Ret (RHandle 10)),
        Ev (CData (Some ''app'')) (Ret (RVal (Prim ''1''))),
        Ev (CGetDataFromPath Undefined Undefined Undefined (Prim ''1'')) (Ret (RVal (Prim ''1'')))]\<rparr>)"
  by (simp add: subscribed_twice_eq whole_store_def subscribe_defs eval_simps)

lemma attribute_eval:
  "attributeChangedCallback one_store ''data-store'' fresh =
   (Inr (), fresh\<lparr>DATA := Obj [(''user'', Prim ''1'')], subscriptions := [(''user'', 2)],
     trace :=
       [Ev (CParse None) (Ret (RParsed (One user_store))),
        Ev (CStore (Some ''app'')) (Ret (RStore 0)),
        Ev (CSubscribe 0 (UpdateData (Some ''user'')) Undefined Undefined Undefined (Some ''user''))
           (Ret (RHandle 2)),
        Ev (CData (Some ''app'')) (Ret (RVal (Prim ''1''))),
        Ev (CGetDataFromPath Undefined Undefined Undefined (Prim ''1'')) (Ret (RVal (Prim ''1''))),
        Ev (CSetTimeout RenderBound None) (Ret RUnit)]\<rparr>)"
  by (simp add: attributeChangedCallback_def setStore_def fresh_eq subscribe_defs
      run_simps call_defs extern_one_store one_store_simps bindM_def thenM_def whenM_def
      user_store_def)

theorem render_deferred_for_attribute_immediate_for_store_witness:
  "fst (attributeChangedCallback one_store ''data-store'' fresh) = Inr () \<and>
   (\<exists>pre. emitted fresh (snd (attributeChangedCallback one_store ''data-store'' fresh)) =
            pre @ [Ev (CSetTimeout RenderBound None) (Ret RUnit)]) \<and>
   fst (updateData quiet (Some ''user'') (Prim ''7'') fresh) = Inr () \<and>
   (\<exists>tp. Ev (CRenderTemplate tp (root fresh)) (Ret RUnit)
            \<in> set (emitted fresh (snd (updateData quiet (Some ''user'') (Prim ''7'') fresh))))"
proof -
  have a: "fst (attributeChangedCallback one_store ''data-store'' fresh) = Inr ()"
    by (simp add: attribute_eval)
  have b: "fst (updateData quiet (Some ''user'') (Prim ''7'') fresh) = Inr ()"
    by (simp add: updateData_eval)
  have c: "\<not> (\<exists>dv. Ev (CPreRenderCheck dv) (Ret (RBool False))
            \<in> set (emitted fresh (snd (updateData quiet (Some ''user'') (Prim ''7'') fresh))))"
    by (simp add: updateData_eval emitted_def fresh_fields)
  from render_deferred_for_attribute_immediate_for_store[where E = one_store and s = fresh] a
  have d: "\<exists>pre. emitted fresh (snd (attributeChangedCallback one_store ''data-store'' fresh)) =
            pre @ [Ev (CSetTimeout RenderBound None) (Ret RUnit)]" by blast
  from render_deferred_for_attribute_immediate_for_store[where E = quiet and s = fresh
      and name = "Some ''user''" and v = "Prim ''7''"] b c
  have "\<exists>tp. Ev (CRenderTemplate tp (root fresh)) (Ret RUnit)
            \<in> set (emitted fresh (snd (updateData quiet (Some ''user'') (Prim ''7'') fresh)))"
    by blast
  with a b d show ?thesis by blast
qed

text \<open>
  Claim C2 as stated fails for a store update: the renderer is called within the update
  callback and no render is enqueued.
\<close>

theorem store_update_renders_at_once:
  "fst (updateData quiet (Some ''user'') (Prim ''7'') fresh) = Inr () \<and>
   Ev (CRenderTemplate 0 (Some Host)) (Ret RUnit)
     \<in> set (emitted fresh (snd (updateData quiet (Some ''user'') (Prim ''7'') fresh))) \<and>
   Ev (CSetTimeout RenderBound None) (Ret RUnit)
     \<notin> set (emitted fresh (snd (updateData quiet (Some ''user'') (Prim ''7'') fresh)))"
  by (simp add: updateData_eval emitted_def fresh_fields)


theorem subscribeToStore_unsubscribes_previous_witness:
  "map_of (subscriptions subscribed_twice) (sub_key (tagName subscribed_twice) (d_name whole_store)) = Some 5 \<and>
   (\<exists>out rest.
      emitted subscribed_twice (snd (subscribeToStore quiet whole_store False subscribed_twice)) =
        Ev (CUnsubscribe 5) out # rest) \<and>
   subscriptions (snd (subscribeToStore quiet whole_store False subscribed_twice)) \<noteq>
     subscriptions subscribed_twice"
proof -
  have a: "map_of (subscriptions subscribed_twice)
      (sub_key (tagName subscribed_twice) (d_name whole_store)) = Some 5"
    by (simp add: subscribed_twice_eq whole_store_def sub_key_def named_def)
  have b: "subscriptions (snd (subscribeToStore quiet whole_store False subscribed_twice)) \<noteq>
     subscriptions subscribed_twice"
    by (simp add: subscribe_whole_again_eval) (simp add: subscribed_twice_eq)
  from subscribeToStore_unsubscribes_previous[OF a, of quiet False] a b
  show ?thesis by blast
qed

text \<open>
  Claim C8 as stated fails: on \<open><my-el>\<close> with a subscription under the tag name
  \<open>MY-EL\<close>, an unnamed subscription unsubscribes nothing and leaves that entry, since
  the key it uses is \<open>MYEL\<close>.
\<close>

theorem subscribeToStore_tag_name_key_untouched:
  "map_of (subscriptions tag_named) (claimed_key (tagName tag_named) (d_name whole_store)) = Some 1 \<and>
   fst (subscribeToStore quiet whole_store False tag_named) = Inr () \<and>
   \<not> list_ex (on_call unsubscribe_call)
       (emitted tag_named (snd (subscribeToStore quiet whole_store False tag_named))) \<and>
   map_of (subscriptions (snd (subscribeToStore quiet whole_store False tag_named)))
     (claimed_key (tagName tag_named) (d_name whole_store)) = Some 1"
  by (simp add: subscribe_whole_tag_named_eval emitted_def on_call_def)
     (simp add: tag_named_eq fresh_fields claimed_key_def whole_store_def named_def)



end
